theory Spec2Isabelle
  imports Main "HOL-Library.Word" "HOL-Library.List_Lexorder"
begin

section \<open>JavaScript strings and values\<close>

text \<open>
  The service under verification is the class \<open>IndexedDBService\<close> (the file
  \<open>indexeddb.service.ts\<close>, in the sources \<open>src/unnamed/part_002\<close>; the line
  numbers below are those of this file). Its methods take values of type \<open>any\<close>, turn them
  into strings with \<open>JSON.stringify\<close>, keep them in an IndexedDB object store and
  read them back with \<open>JSON.parse\<close>. This section models the values and the two
  built-in functions, following ECMA-262 (sections 25.5.1 and 25.5.2).

  A JavaScript string is a sequence of 16-bit code units.
\<close>

type_synonym jschar = "16 word"
type_synonym jsstring = "jschar list"

text \<open>\<open>js\<close> turns an ASCII literal into a JavaScript string.\<close>

definition js :: "string \<Rightarrow> jsstring" where
  "js s = map of_char s"

abbreviation c_quote :: jschar where "c_quote \<equiv> 0x22"
abbreviation c_backslash :: jschar where "c_backslash \<equiv> 0x5C"
abbreviation c_comma :: jschar where "c_comma \<equiv> 0x2C"
abbreviation c_colon :: jschar where "c_colon \<equiv> 0x3A"
abbreviation c_lbracket :: jschar where "c_lbracket \<equiv> 0x5B"
abbreviation c_rbracket :: jschar where "c_rbracket \<equiv> 0x5D"
abbreviation c_lbrace :: jschar where "c_lbrace \<equiv> 0x7B"
abbreviation c_rbrace :: jschar where "c_rbrace \<equiv> 0x7D"

text \<open>
  The values: \<open>undefined\<close>, \<open>null\<close>, booleans, numbers, BigInts, strings, arrays
  and plain objects (an object is the list of its own enumerable string-keyed
  properties, in property order). A BigInt is a value on which \<open>JSON.stringify\<close>
  throws a \<open>TypeError\<close>; it stands for every such value (a cyclic object is
  another, and has no term in a datatype). Values with a \<open>toJSON\<close> method are
  outside the model.

  Numbers are IEEE doubles in JavaScript. The model leaves the number type open
  (the type parameter \<open>'n\<close>) and takes the two conversions between numbers and their
  text as parameters: \<open>num_show\<close> is \<open>Number.prototype.toString\<close> on a finite number
  and \<open>None\<close> on \<open>NaN\<close> and the infinities; \<open>num_read\<close> is the value of a JSON
  number literal.
\<close>

datatype 'n jsval =
    JUndefined
  | JNull
  | JBool bool
  | JNum 'n
  | JBigInt int
  | JStr jsstring
  | JArr "'n jsval list"
  | JObj "(jsstring \<times> 'n jsval) list"

record 'n numfmt =
  num_show :: "'n \<Rightarrow> jsstring option"
  num_read :: "jsstring \<Rightarrow> 'n"

datatype jserror =
    SyntaxError
  | TypeError
  | DOMException string

subsection \<open>JSON.stringify\<close>

text \<open>
  \<open>QuoteJSONString\<close>: the two-character escapes, \<open>\u00xx\<close> for the other control
  characters, \<open>\udxxx\<close> for a surrogate that is not part of a pair, and every other
  code unit as it is.
\<close>

definition hex_digit :: "nat \<Rightarrow> jschar" where
  "hex_digit d = (if d < 10 then 0x30 + of_nat d else 0x57 + of_nat d)"

definition unicode_escape :: "jschar \<Rightarrow> jsstring" where
  "unicode_escape c =
     (let n = unat c in
      [c_backslash, 0x75, hex_digit (n div 4096), hex_digit (n div 256 mod 16),
       hex_digit (n div 16 mod 16), hex_digit (n mod 16)])"

definition is_high_surrogate :: "jschar \<Rightarrow> bool" where
  "is_high_surrogate c = (0xD800 \<le> c \<and> c \<le> 0xDBFF)"

definition is_low_surrogate :: "jschar \<Rightarrow> bool" where
  "is_low_surrogate c = (0xDC00 \<le> c \<and> c \<le> 0xDFFF)"

definition escape_char :: "jschar \<Rightarrow> jsstring" where
  "escape_char c =
     (if c = 0x08 then [c_backslash, 0x62]
      else if c = 0x09 then [c_backslash, 0x74]
      else if c = 0x0A then [c_backslash, 0x6E]
      else if c = 0x0C then [c_backslash, 0x66]
      else if c = 0x0D then [c_backslash, 0x72]
      else if c = c_quote then [c_backslash, c_quote]
      else if c = c_backslash then [c_backslash, c_backslash]
      else if c < 0x20 \<or> is_high_surrogate c \<or> is_low_surrogate c then unicode_escape c
      else [c])"

fun quote_chars :: "jsstring \<Rightarrow> jsstring" where
  "quote_chars [] = []"
| "quote_chars [c] = escape_char c"
| "quote_chars (c # d # cs) =
     (if is_high_surrogate c \<and> is_low_surrogate d then c # d # quote_chars cs
      else escape_char c @ quote_chars (d # cs))"

definition quote :: "jsstring \<Rightarrow> jsstring" where
  "quote s = c_quote # quote_chars s @ [c_quote]"

fun join_comma :: "jsstring list \<Rightarrow> jsstring" where
  "join_comma [] = []"
| "join_comma [s] = s"
| "join_comma (s # t # ts) = s @ c_comma # join_comma (t # ts)"

text \<open>
  \<open>SerializeJSONProperty\<close> without indentation. The result \<open>Inl TypeError\<close> is the
  exception thrown when a BigInt is met, anywhere in the value. The result
  \<open>Inr None\<close> is \<open>undefined\<close>: \<open>JSON.stringify(undefined)\<close> returns \<open>undefined\<close>, not
  a string. Inside an array \<open>undefined\<close> is written \<open>null\<close>; inside an object a
  property whose value is \<open>undefined\<close> is left out; a number that is not finite is
  written \<open>null\<close>.
\<close>

fun json_stringify :: "'n numfmt \<Rightarrow> 'n jsval \<Rightarrow> jserror + jsstring option"
  and stringify_elements :: "'n numfmt \<Rightarrow> 'n jsval list \<Rightarrow> jserror + jsstring list"
  and stringify_members :: "'n numfmt \<Rightarrow> (jsstring \<times> 'n jsval) list \<Rightarrow> jserror + jsstring list"
where
  "json_stringify N JUndefined = Inr None"
| "json_stringify N JNull = Inr (Some (js ''null''))"
| "json_stringify N (JBool b) = Inr (Some (if b then js ''true'' else js ''false''))"
| "json_stringify N (JNum n) =
     Inr (Some (case num_show N n of None \<Rightarrow> js ''null'' | Some s \<Rightarrow> s))"
| "json_stringify N (JBigInt i) = Inl TypeError"
| "json_stringify N (JStr s) = Inr (Some (quote s))"
| "json_stringify N (JArr xs) =
     (case stringify_elements N xs of
        Inl e \<Rightarrow> Inl e
      | Inr ss \<Rightarrow> Inr (Some (c_lbracket # join_comma ss @ [c_rbracket])))"
| "json_stringify N (JObj kvs) =
     (case stringify_members N kvs of
        Inl e \<Rightarrow> Inl e
      | Inr ss \<Rightarrow> Inr (Some (c_lbrace # join_comma ss @ [c_rbrace])))"
| "stringify_elements N [] = Inr []"
| "stringify_elements N (x # xs) =
     (case json_stringify N x of
        Inl e \<Rightarrow> Inl e
      | Inr t \<Rightarrow>
          (case stringify_elements N xs of
             Inl e \<Rightarrow> Inl e
           | Inr ss \<Rightarrow> Inr ((case t of None \<Rightarrow> js ''null'' | Some s \<Rightarrow> s) # ss)))"
| "stringify_members N [] = Inr []"
| "stringify_members N ((k, v) # kvs) =
     (case json_stringify N v of
        Inl e \<Rightarrow> Inl e
      | Inr t \<Rightarrow>
          (case stringify_members N kvs of
             Inl e \<Rightarrow> Inl e
           | Inr ss \<Rightarrow>
               Inr (case t of None \<Rightarrow> ss | Some s \<Rightarrow> (quote k @ c_colon # s) # ss)))"

subsection \<open>JSON.parse\<close>

text \<open>
  The text is first cut into tokens (the lexical grammar of ECMA-404: white space,
  punctuation, the three literal names, strings with their escapes, numbers), then
  a pushdown automaton builds the value from the tokens. A failure at either stage
  is the \<open>SyntaxError\<close> that \<open>JSON.parse\<close> throws.
\<close>

datatype token =
    TLBrace | TRBrace | TLBracket | TRBracket | TColon | TComma
  | TNull | TTrue | TFalse
  | TString jsstring
  | TNumber jsstring

definition is_ws :: "jschar \<Rightarrow> bool" where
  "is_ws c = (c = 0x20 \<or> c = 0x09 \<or> c = 0x0A \<or> c = 0x0D)"

definition is_digit :: "jschar \<Rightarrow> bool" where
  "is_digit c = (0x30 \<le> c \<and> c \<le> 0x39)"

definition hex_value :: "jschar \<Rightarrow> nat option" where
  "hex_value c =
     (if 0x30 \<le> c \<and> c \<le> 0x39 then Some (unat c - 48)
      else if 0x61 \<le> c \<and> c \<le> 0x66 then Some (unat c - 87)
      else if 0x41 \<le> c \<and> c \<le> 0x46 then Some (unat c - 55)
      else None)"

definition hex4 :: "jschar \<Rightarrow> jschar \<Rightarrow> jschar \<Rightarrow> jschar \<Rightarrow> jschar option" where
  "hex4 h1 h2 h3 h4 =
     (case (hex_value h1, hex_value h2, hex_value h3, hex_value h4) of
        (Some a, Some b, Some c, Some d) \<Rightarrow> Some (of_nat (((a * 16 + b) * 16 + c) * 16 + d))
      | _ \<Rightarrow> None)"

definition unescape :: "jschar \<Rightarrow> jschar option" where
  "unescape e =
     (if e = c_quote then Some c_quote
      else if e = c_backslash then Some c_backslash
      else if e = 0x2F then Some 0x2F
      else if e = 0x62 then Some 0x08
      else if e = 0x66 then Some 0x0C
      else if e = 0x6E then Some 0x0A
      else if e = 0x72 then Some 0x0D
      else if e = 0x74 then Some 0x09
      else None)"

text \<open>
  \<open>lex_string\<close> reads the characters of a string after its opening quote and returns
  the string's value and the text after the closing quote.
\<close>

fun lex_string :: "jsstring \<Rightarrow> (jsstring \<times> jsstring) option" where
  "lex_string [] = None"
| "lex_string (c # cs) =
     (if c = c_quote then Some ([], cs)
      else if c = c_backslash then
        (case cs of
           [] \<Rightarrow> None
         | e # r \<Rightarrow>
             if e = 0x75 then
               (case r of
                  h1 # h2 # h3 # h4 # r' \<Rightarrow>
                    (case hex4 h1 h2 h3 h4 of
                       None \<Rightarrow> None
                     | Some u \<Rightarrow> map_option (apfst ((#) u)) (lex_string r'))
                | _ \<Rightarrow> None)
             else
               (case unescape e of
                  None \<Rightarrow> None
                | Some u \<Rightarrow> map_option (apfst ((#) u)) (lex_string r)))
      else if c < 0x20 then None
      else map_option (apfst ((#) c)) (lex_string cs))"

text \<open>
  A number literal: an optional minus sign, the integer part (\<open>0\<close>, or a non-zero
  digit and more digits), an optional fraction, an optional exponent. Each scanner
  returns the text it read and the text that follows.
\<close>

definition scan_int :: "jsstring \<Rightarrow> (jsstring \<times> jsstring) option" where
  "scan_int cs =
     (case cs of
        [] \<Rightarrow> None
      | c # r \<Rightarrow>
          if c = 0x30 then Some ([c], r)
          else if is_digit c then Some (c # takeWhile is_digit r, dropWhile is_digit r)
          else None)"

definition scan_frac :: "jsstring \<Rightarrow> (jsstring \<times> jsstring) option" where
  "scan_frac cs =
     (case cs of
        [] \<Rightarrow> Some ([], cs)
      | c # r \<Rightarrow>
          if c = 0x2E then
            (if takeWhile is_digit r = [] then None
             else Some (c # takeWhile is_digit r, dropWhile is_digit r))
          else Some ([], cs))"

definition scan_sign :: "jsstring \<Rightarrow> jsstring \<times> jsstring" where
  "scan_sign cs =
     (case cs of
        [] \<Rightarrow> ([], cs)
      | c # r \<Rightarrow> if c = 0x2B \<or> c = 0x2D then ([c], r) else ([], cs))"

definition scan_exp :: "jsstring \<Rightarrow> (jsstring \<times> jsstring) option" where
  "scan_exp cs =
     (case cs of
        [] \<Rightarrow> Some ([], cs)
      | c # r \<Rightarrow>
          if c = 0x65 \<or> c = 0x45 then
            (case scan_sign r of
               (sg, r') \<Rightarrow>
                 if takeWhile is_digit r' = [] then None
                 else Some (c # sg @ takeWhile is_digit r', dropWhile is_digit r'))
          else Some ([], cs))"

definition scan_number :: "jsstring \<Rightarrow> (jsstring \<times> jsstring) option" where
  "scan_number cs =
     (case (case cs of [] \<Rightarrow> ([], cs) | c # r \<Rightarrow> if c = 0x2D then ([c], r) else ([], cs)) of
        (sg, r0) \<Rightarrow>
          (case scan_int r0 of
             None \<Rightarrow> None
           | Some (ip, r1) \<Rightarrow>
               (case scan_frac r1 of
                  None \<Rightarrow> None
                | Some (fp, r2) \<Rightarrow>
                    (case scan_exp r2 of
                       None \<Rightarrow> None
                     | Some (ep, r3) \<Rightarrow> Some (sg @ ip @ fp @ ep, r3)))))"

definition match_literal :: "jsstring \<Rightarrow> jsstring \<Rightarrow> jsstring option" where
  "match_literal lit cs =
     (if take (length lit) cs = lit then Some (drop (length lit) cs) else None)"

text \<open>The token at the head of a text that does not start with white space.\<close>

definition next_token :: "jsstring \<Rightarrow> (token \<times> jsstring) option" where
  "next_token cs =
     (case cs of
        [] \<Rightarrow> None
      | c # r \<Rightarrow>
          if c = c_lbrace then Some (TLBrace, r)
          else if c = c_rbrace then Some (TRBrace, r)
          else if c = c_lbracket then Some (TLBracket, r)
          else if c = c_rbracket then Some (TRBracket, r)
          else if c = c_colon then Some (TColon, r)
          else if c = c_comma then Some (TComma, r)
          else if c = c_quote then map_option (apfst TString) (lex_string r)
          else if c = 0x2D \<or> is_digit c then map_option (apfst TNumber) (scan_number cs)
          else if c = 0x6E then map_option (Pair TNull) (match_literal (js ''null'') cs)
          else if c = 0x74 then map_option (Pair TTrue) (match_literal (js ''true'') cs)
          else if c = 0x66 then map_option (Pair TFalse) (match_literal (js ''false'') cs)
          else None)"

text \<open>Every token takes at least one character, so cutting a text into tokens ends.\<close>

lemma lex_string_shorter: "lex_string cs = Some (s, r) \<Longrightarrow> length r < Suc (length cs)"
proof (induction cs arbitrary: s r rule: lex_string.induct)
  case 1
  then show ?case by simp
next
  case (2 c cs)
  show ?case
  proof (cases "c = c_quote")
    case True
    with "2.prems" show ?thesis by simp
  next
    case nq: False
    show ?thesis
    proof (cases "c = c_backslash")
      case False
      with nq "2.prems" "2.IH"(3) show ?thesis
        by (fastforce split: if_splits)
    next
      case True
      with nq "2.prems" "2.IH"(1,2) show ?thesis
        by (fastforce split: if_splits list.splits option.splits)
    qed
  qed
qed

lemma scan_number_shorter: "scan_number cs = Some (l, r) \<Longrightarrow> length r < length cs"
proof -
  have dw: "length (dropWhile is_digit xs) \<le> length xs" for xs
    by (simp add: length_dropWhile_le)
  have i: "scan_int xs = Some (a, b) \<Longrightarrow> length b < length xs" for xs a b
    using dw by (fastforce simp: scan_int_def le_imp_less_Suc split: list.splits if_splits)
  have f: "scan_frac xs = Some (a, b) \<Longrightarrow> length b \<le> length xs" for xs a b
    using dw by (fastforce simp: scan_frac_def le_SucI split: list.splits if_splits)
  have sg: "scan_sign xs = (a, b) \<Longrightarrow> length b \<le> length xs" for xs a b
    by (auto simp: scan_sign_def split: list.splits if_splits)
  have e: "scan_exp xs = Some (a, b) \<Longrightarrow> length b \<le> length xs" for xs a b
  proof -
    assume h: "scan_exp xs = Some (a, b)"
    show ?thesis
    proof (cases xs)
      case Nil
      with h show ?thesis by (simp add: scan_exp_def)
    next
      case (Cons c r)
      obtain sgn r' where s: "scan_sign r = (sgn, r')" by (cases "scan_sign r") auto
      from sg [OF s] have "length r' \<le> length r" .
      moreover have "length (dropWhile is_digit r') \<le> length r'" by (rule dw)
      ultimately show ?thesis
        using h Cons s by (auto simp: scan_exp_def split: if_splits)
    qed
  qed
  assume h: "scan_number cs = Some (l, r)"
  obtain sgn r0 where s0:
    "(case cs of [] \<Rightarrow> ([], cs) | c # r \<Rightarrow> if c = 0x2D then ([c], r) else ([], cs)) = (sgn, r0)"
    by (cases "(case cs of [] \<Rightarrow> ([], cs) | c # r \<Rightarrow> if c = 0x2D then ([c], r) else ([]::jsstring, cs))") auto
  then have l0: "length r0 \<le> length cs"
    by (auto split: list.splits if_splits)
  from h s0 obtain ip r1 where s1: "scan_int r0 = Some (ip, r1)"
    by (auto simp: scan_number_def split: option.splits)
  from h s0 s1 obtain fp r2 where s2: "scan_frac r1 = Some (fp, r2)"
    by (auto simp: scan_number_def split: option.splits)
  from h s0 s1 s2 obtain ep where s3: "scan_exp r2 = Some (ep, r)"
    by (auto simp: scan_number_def split: option.splits)
  from i [OF s1] f [OF s2] e [OF s3] l0 show ?thesis by linarith
qed

lemma match_literal_shorter:
  "match_literal l xs = Some r \<Longrightarrow> l \<noteq> [] \<Longrightarrow> length r < length xs"
proof -
  assume h: "match_literal l xs = Some r" and ne: "l \<noteq> []"
  from h have t: "take (length l) xs = l" and r: "r = drop (length l) xs"
    by (auto simp: match_literal_def split: if_splits)
  from t have "length (take (length l) xs) = length l" by simp
  then have "length l \<le> length xs" by simp
  with ne r show ?thesis by (cases l) auto
qed

lemma next_token_shorter: "next_token cs = Some (t, r) \<Longrightarrow> length r < length cs"
proof (cases cs)
  case Nil
  then show "next_token cs = Some (t, r) \<Longrightarrow> ?thesis" by (simp add: next_token_def)
next
  case (Cons c r0)
  assume h: "next_token cs = Some (t, r)"
  have jn: "js ''null'' \<noteq> []" "js ''true'' \<noteq> []" "js ''false'' \<noteq> []"
    by (simp_all add: js_def)
  have m: "match_literal l (c # r0) = Some r \<Longrightarrow> l \<noteq> [] \<Longrightarrow> length r < Suc (length r0)" for l
    using match_literal_shorter [of l "c # r0" r] by simp
  have s: "lex_string r0 = Some (x, r) \<Longrightarrow> length r < Suc (length r0)" for x
    by (rule lex_string_shorter)
  have n: "scan_number (c # r0) = Some (x, r) \<Longrightarrow> length r < Suc (length r0)" for x
    using scan_number_shorter [of "c # r0" x r] by simp
  from h Cons show ?thesis
    by (auto simp: next_token_def split: if_splits intro: s n m [OF _ jn(1)] m [OF _ jn(2)] m [OF _ jn(3)])
qed

function lex :: "jsstring \<Rightarrow> token list option" where
  "lex [] = Some []"
| "lex (c # cs) =
     (if is_ws c then lex cs
      else (case next_token (c # cs) of
              None \<Rightarrow> None
            | Some (t, r) \<Rightarrow> map_option ((#) t) (lex r)))"
  by pat_completeness auto
termination
  by (relation "measure length") (auto dest: next_token_shorter)

text \<open>
  The automaton. A frame is an array or an object under construction that waits for
  the value being read: an array with the elements read so far, an object with the
  properties read so far and the key of the property being read. The states say
  what may come next.
\<close>

datatype 'n frame =
    FArr "'n jsval list"
  | FObj "(jsstring \<times> 'n jsval) list" jsstring

datatype 'n pstate =
    PValue "'n frame list"
  | PArrStart "'n frame list"
  | PArrNext "'n jsval list" "'n frame list"
  | PObjStart "'n frame list"
  | PObjKey "(jsstring \<times> 'n jsval) list" "'n frame list"
  | PObjColon "(jsstring \<times> 'n jsval) list" jsstring "'n frame list"
  | PObjNext "(jsstring \<times> 'n jsval) list" "'n frame list"
  | PDone "'n jsval"

text \<open>
  \<open>CreateDataProperty\<close>: a key that occurs twice in the text keeps its first place
  and takes the last value. The properties are kept in the order of the text; an
  engine lists the keys that are array indices before the others, in ascending
  order, so for objects with such keys the list is the properties in another order.
\<close>

fun set_property :: "jsstring \<Rightarrow> 'v \<Rightarrow> (jsstring \<times> 'v) list \<Rightarrow> (jsstring \<times> 'v) list" where
  "set_property k v [] = [(k, v)]"
| "set_property k v ((k', v') # kvs) =
     (if k' = k then (k, v) # kvs else (k', v') # set_property k v kvs)"

fun deliver :: "'n jsval \<Rightarrow> 'n frame list \<Rightarrow> 'n pstate" where
  "deliver v [] = PDone v"
| "deliver v (FArr es # fs) = PArrNext (es @ [v]) fs"
| "deliver v (FObj ms k # fs) = PObjNext (set_property k v ms) fs"

fun value_token :: "'n numfmt \<Rightarrow> 'n frame list \<Rightarrow> token \<Rightarrow> 'n pstate option" where
  "value_token N fs TNull = Some (deliver JNull fs)"
| "value_token N fs TTrue = Some (deliver (JBool True) fs)"
| "value_token N fs TFalse = Some (deliver (JBool False) fs)"
| "value_token N fs (TString s) = Some (deliver (JStr s) fs)"
| "value_token N fs (TNumber l) = Some (deliver (JNum (num_read N l)) fs)"
| "value_token N fs TLBracket = Some (PArrStart fs)"
| "value_token N fs TLBrace = Some (PObjStart fs)"
| "value_token N fs TRBracket = None"
| "value_token N fs TRBrace = None"
| "value_token N fs TColon = None"
| "value_token N fs TComma = None"

fun step :: "'n numfmt \<Rightarrow> 'n pstate \<Rightarrow> token \<Rightarrow> 'n pstate option" where
  "step N (PValue fs) t = value_token N fs t"
| "step N (PArrStart fs) t =
     (if t = TRBracket then Some (deliver (JArr []) fs) else value_token N (FArr [] # fs) t)"
| "step N (PArrNext es fs) t =
     (if t = TComma then Some (PValue (FArr es # fs))
      else if t = TRBracket then Some (deliver (JArr es) fs)
      else None)"
| "step N (PObjStart fs) t =
     (case t of
        TRBrace \<Rightarrow> Some (deliver (JObj []) fs)
      | TString k \<Rightarrow> Some (PObjColon [] k fs)
      | _ \<Rightarrow> None)"
| "step N (PObjKey ms fs) t =
     (case t of TString k \<Rightarrow> Some (PObjColon ms k fs) | _ \<Rightarrow> None)"
| "step N (PObjColon ms k fs) t =
     (if t = TColon then Some (PValue (FObj ms k # fs)) else None)"
| "step N (PObjNext ms fs) t =
     (if t = TComma then Some (PObjKey ms fs)
      else if t = TRBrace then Some (deliver (JObj ms) fs)
      else None)"
| "step N (PDone v) t = None"

fun run :: "'n numfmt \<Rightarrow> 'n pstate \<Rightarrow> token list \<Rightarrow> 'n pstate option" where
  "run N s [] = Some s"
| "run N s (t # ts) = (case step N s t of None \<Rightarrow> None | Some s' \<Rightarrow> run N s' ts)"

definition json_parse :: "'n numfmt \<Rightarrow> jsstring \<Rightarrow> jserror + 'n jsval" where
  "json_parse N s =
     (case lex s of
        None \<Rightarrow> Inl SyntaxError
      | Some ts \<Rightarrow>
          (case run N (PValue []) ts of
             Some (PDone v) \<Rightarrow> Inr v
           | _ \<Rightarrow> Inl SyntaxError))"

subsection \<open>The values that JSON represents\<close>

text \<open>
  \<open>json_value N v\<close>: the value \<open>v\<close> is one that JSON represents. It contains no
  \<open>undefined\<close> and no BigInt; each of its numbers is finite, is written by \<open>num_show\<close> as a JSON
  number literal, and is the number that \<open>num_read\<close> reads from this literal; the
  keys of each of its objects are distinct (as the keys of an object are).
\<close>

fun json_value :: "'n numfmt \<Rightarrow> 'n jsval \<Rightarrow> bool"
  and json_values :: "'n numfmt \<Rightarrow> 'n jsval list \<Rightarrow> bool"
  and json_members :: "'n numfmt \<Rightarrow> (jsstring \<times> 'n jsval) list \<Rightarrow> bool"
where
  "json_value N JUndefined = False"
| "json_value N JNull = True"
| "json_value N (JBool b) = True"
| "json_value N (JNum n) =
     (case num_show N n of
        None \<Rightarrow> False
      | Some l \<Rightarrow> scan_number l = Some (l, []) \<and> num_read N l = n)"
| "json_value N (JBigInt i) = False"
| "json_value N (JStr s) = True"
| "json_value N (JArr xs) = json_values N xs"
| "json_value N (JObj kvs) = (distinct (map fst kvs) \<and> json_members N kvs)"
| "json_values N [] = True"
| "json_values N (x # xs) = (json_value N x \<and> json_values N xs)"
| "json_members N [] = True"
| "json_members N ((k, v) # kvs) = (json_value N v \<and> json_members N kvs)"

section \<open>The platform: object store, legacy store, clock\<close>

text \<open>
  A record of the object store \<open>keyValueStore\<close> is \<open>{key, value, timestamp}\<close>. The
  field \<open>val\<close> is the record's \<open>value\<close>: a string, or \<open>undefined\<close> (\<open>None\<close>) when
  \<open>JSON.stringify\<close> returned \<open>undefined\<close>.
\<close>

record dbrecord =
  key :: jsstring
  val :: "jsstring option"
  timestamp :: nat

text \<open>
  The object store has the key path \<open>key\<close>: it holds at most one record per key and
  keeps its records in key order. \<open>store_put\<close> is \<open>IDBObjectStore.put\<close>,
  \<open>store_delete\<close> is \<open>delete\<close>, \<open>store_get\<close> is \<open>get\<close>, \<open>store_count_only\<close> is
  \<open>count(IDBKeyRange.only(key))\<close>.
\<close>

fun store_put :: "dbrecord \<Rightarrow> dbrecord list \<Rightarrow> dbrecord list" where
  "store_put r [] = [r]"
| "store_put r (x # xs) =
     (if key r = key x then r # xs
      else if key r < key x then r # x # xs
      else x # store_put r xs)"

definition store_delete :: "jsstring \<Rightarrow> dbrecord list \<Rightarrow> dbrecord list" where
  "store_delete k rs = filter (\<lambda>r. key r \<noteq> k) rs"

definition store_get :: "jsstring \<Rightarrow> dbrecord list \<Rightarrow> dbrecord option" where
  "store_get k rs = find (\<lambda>r. key r = k) rs"


text \<open>
  The state of the service and of the platform around it.
  \<^item> \<open>db\<close>: the field \<open>this.db\<close> holds a connection.
  \<^item> \<open>opens\<close>: how many times \<open>indexedDB.open\<close> has been called; \<open>pending_opens\<close>: how
    many of these requests have not completed yet.
  \<^item> \<open>db_version\<close>: the version of the database \<open>FUXA_DB\<close> (0 when it does not
    exist); \<open>has_store\<close>: the object store exists; \<open>creates\<close>: how many times
    \<open>createObjectStore\<close> has been called.
  \<^item> \<open>store\<close>: the records of the object store.
  \<^item> \<open>localStorage\<close>: the entries of the legacy store, in the order of
    \<open>localStorage.key(i)\<close>.
  \<^item> \<open>fault\<close> and \<open>requests\<close>: the platform decides whether a request fails; \<open>fault n\<close>
    is the name of the \<open>DOMException\<close> of the \<open>n\<close>-th request processed, \<open>None\<close> when
    it succeeds.
  \<^item> \<open>clock\<close> and \<open>clock_reads\<close>: \<open>clock n\<close> is what the \<open>n\<close>-th call of \<open>Date.now()\<close>
    returns.
\<close>

record world =
  db :: bool
  opens :: nat
  pending_opens :: nat
  db_version :: nat
  has_store :: bool
  creates :: nat
  store :: "dbrecord list"
  localStorage :: "(jsstring \<times> jsstring) list"
  requests :: nat
  fault :: "nat \<Rightarrow> string option"
  clock_reads :: nat
  clock :: "nat \<Rightarrow> nat"

definition request_outcome :: "world \<Rightarrow> string option \<times> world" where
  "request_outcome w = (fault w (requests w), w\<lparr>requests := Suc (requests w)\<rparr>)"

definition date_now :: "world \<Rightarrow> nat \<times> world" where
  "date_now w = (clock w (clock_reads w), w\<lparr>clock_reads := Suc (clock_reads w)\<rparr>)"

text \<open>
  The requests of one \<open>readwrite\<close> transaction are processed in the order in which
  they were placed. \<open>exec_requests\<close> returns the event each request ends with
  (\<open>None\<close>: a \<open>success\<close> event, \<open>Some e\<close>: an \<open>error\<close> event with that exception).
  What happens on a failure is the platform's rule, not the service's code: in
  the Indexed Database API ("fire an error event"), an \<open>error\<close> event whose default
  is not prevented aborts the transaction of its request, and aborting a
  transaction reverts every change the transaction has made. None of the service's
  \<open>onerror\<close> handlers calls \<open>preventDefault()\<close>. So the first \<open>error\<close> event
  aborts the transaction: the requests that were still waiting end with an
  \<open>AbortError\<close>, and \<open>transaction\<close> puts the object store back to what it was when
  the transaction began.
\<close>

datatype request = Put dbrecord | Delete jsstring

fun apply_request :: "request \<Rightarrow> dbrecord list \<Rightarrow> dbrecord list" where
  "apply_request (Put r) rs = store_put r rs"
| "apply_request (Delete k) rs = store_delete k rs"

fun exec_requests :: "request list \<Rightarrow> world \<Rightarrow> string option list \<times> world" where
  "exec_requests [] w = ([], w)"
| "exec_requests (r # rs) w =
     (case request_outcome w of
        (Some e, w1) \<Rightarrow> (Some e # map (\<lambda>_. Some ''AbortError'') rs, w1)
      | (None, w1) \<Rightarrow>
          (case exec_requests rs (w1\<lparr>store := apply_request r (store w1)\<rparr>) of
             (events, w2) \<Rightarrow> (None # events, w2)))"

definition transaction :: "request list \<Rightarrow> world \<Rightarrow> string option list \<times> world" where
  "transaction rs w =
     (case exec_requests rs w of
        (events, w') \<Rightarrow>
          (events, if list_ex (\<lambda>e. e \<noteq> None) events then w'\<lparr>store := store w\<rparr> else w'))"

section \<open>The service\<close>

text \<open>
  An operation of the service takes the state and returns the state of its promise
  (or of the observable made from it) once all its requests have been processed,
  with the new state. \<open>Pending\<close> is a promise that is never settled.
\<close>

datatype 'a promise = Pending | Resolved 'a | Rejected jserror

subsection \<open>Connection setup\<close>

text \<open>
  \<open>initDB\<close> (lines 25 to 47) calls \<open>indexedDB.open\<close> and returns a promise: that is
  \<open>open_request\<close>. The rest happens when the platform processes the request
  (\<open>open_completes\<close>): on failure the promise is rejected; on success, the
  \<open>upgradeneeded\<close> handler runs first when the database is older than version 1,
  and creates the object store unless it exists, then \<open>onsuccess\<close> sets \<open>this.db\<close>.
  Open requests for one database are processed in the order in which they were made.
\<close>

definition open_request :: "world \<Rightarrow> world" where
  "open_request w = w\<lparr>opens := Suc (opens w), pending_opens := Suc (pending_opens w)\<rparr>"

definition onupgradeneeded :: "world \<Rightarrow> world" where
  "onupgradeneeded w =
     (if has_store w then w else w\<lparr>has_store := True, creates := Suc (creates w)\<rparr>)"

definition open_completes :: "world \<Rightarrow> string option \<times> world" where
  "open_completes w =
     (case request_outcome (w\<lparr>pending_opens := pending_opens w - 1\<rparr>) of
        (Some e, w1) \<Rightarrow> (Some e, w1)
      | (None, w1) \<Rightarrow>
          (None,
           (if db_version w1 < 1 then (onupgradeneeded w1)\<lparr>db_version := 1\<rparr> else w1)
             \<lparr>db := True\<rparr>))"

text \<open>
  An operation that awaits its own \<open>initDB()\<close> goes on when its request, the newest
  one, has completed; the requests made before it complete first.
\<close>

fun await_opens :: "nat \<Rightarrow> world \<Rightarrow> string option \<times> world" where
  "await_opens 0 w = (None, w)"
| "await_opens (Suc 0) w = open_completes w"
| "await_opens (Suc (Suc n)) w = await_opens (Suc n) (snd (open_completes w))"

definition initDB :: "world \<Rightarrow> string option \<times> world" where
  "initDB w = (let w1 = open_request w in await_opens (pending_opens w1) w1)"

text \<open>\<open>ensureDB\<close> (lines 52 to 58).\<close>

definition ensureDB :: "world \<Rightarrow> string option \<times> world" where
  "ensureDB w = (if db w then (None, w) else initDB w)"




subsection \<open>Single operations\<close>

text \<open>
  The \<open>value\<close> field of a record (lines 74, 244 and 336):
  \<open>typeof value === 'string' ? value : JSON.stringify(value)\<close>. It throws when
  \<open>JSON.stringify\<close> does.
\<close>

definition serialize :: "'n numfmt \<Rightarrow> 'n jsval \<Rightarrow> jserror + jsstring option" where
  "serialize N v = (case v of JStr s \<Rightarrow> Inr (Some s) | _ \<Rightarrow> json_stringify N v)"

text \<open>
  \<open>JSON.parse(result.value)\<close> with the fallback of the \<open>catch\<close> branch (lines 108 to
  115). \<open>JSON.parse\<close> first converts its argument to a string, so a \<open>value\<close> that
  is \<open>undefined\<close> is parsed as the text \<open>undefined\<close>.
\<close>

definition to_string :: "jsstring option \<Rightarrow> jsstring" where
  "to_string x = (case x of None \<Rightarrow> js ''undefined'' | Some s \<Rightarrow> s)"

definition raw_value :: "jsstring option \<Rightarrow> 'n jsval" where
  "raw_value x = (case x of None \<Rightarrow> JUndefined | Some s \<Rightarrow> JStr s)"

definition decode :: "'n numfmt \<Rightarrow> jsstring option \<Rightarrow> 'n jsval" where
  "decode N x = (case json_parse N (to_string x) of Inr parsed \<Rightarrow> parsed | Inl e \<Rightarrow> raw_value x)"

text \<open>The promise of an operation with one request: \<open>onsuccess\<close> resolves, \<open>onerror\<close> rejects.\<close>

definition settle1 :: "string option list \<Rightarrow> 'a \<Rightarrow> 'a promise" where
  "settle1 events x =
     (case events of
        [] \<Rightarrow> Pending
      | None # _ \<Rightarrow> Resolved x
      | Some e # _ \<Rightarrow> Rejected (DOMException e))"

text \<open>
  \<open>setItem\<close> (lines 66 to 90). An exception thrown in the executor of a promise
  rejects the promise: when building the record throws (line 74, before
  \<open>Date.now()\<close> is called and before any request is placed), the operation
  rejects with that exception.
\<close>

definition setItem :: "'n numfmt \<Rightarrow> jsstring \<Rightarrow> 'n jsval \<Rightarrow> world \<Rightarrow> bool promise \<times> world" where
  "setItem N k v w =
     (case ensureDB w of
        (Some e, w1) \<Rightarrow> (Rejected (DOMException e), w1)
      | (None, w1) \<Rightarrow>
          (case serialize N v of
             Inl thrown \<Rightarrow> (Rejected thrown, w1)
           | Inr x \<Rightarrow>
               (case date_now w1 of
                  (t, w2) \<Rightarrow>
                    (case transaction [Put \<lparr>key = k, val = x, timestamp = t\<rparr>] w2 of
                       (events, w3) \<Rightarrow> (settle1 events True, w3)))))"

text \<open>\<open>getItem\<close> (lines 97 to 128). The record object \<open>result\<close> is truthy whenever it exists.\<close>

definition getItem :: "'n numfmt \<Rightarrow> jsstring \<Rightarrow> world \<Rightarrow> 'n jsval promise \<times> world" where
  "getItem N k w =
     (case ensureDB w of
        (Some e, w1) \<Rightarrow> (Rejected (DOMException e), w1)
      | (None, w1) \<Rightarrow>
          (case request_outcome w1 of
             (Some e, w2) \<Rightarrow> (Rejected (DOMException e), w2)
           | (None, w2) \<Rightarrow>
               (case store_get k (store w2) of
                  Some result \<Rightarrow> (Resolved (decode N (val result)), w2)
                | None \<Rightarrow> (Resolved JNull, w2))))"



text \<open>\<open>getCount\<close> (lines 493 to 512).\<close>

definition getCount :: "world \<Rightarrow> nat promise \<times> world" where
  "getCount w =
     (case ensureDB w of
        (Some e, w1) \<Rightarrow> (Rejected (DOMException e), w1)
      | (None, w1) \<Rightarrow>
          (case request_outcome w1 of
             (Some e, w2) \<Rightarrow> (Rejected (DOMException e), w2)
           | (None, w2) \<Rightarrow> (Resolved (length (store w2)), w2)))"



subsection \<open>Batch operations\<close>

text \<open>
  \<open>setItems\<close> and \<open>removeItems\<close> share one promise among the handlers of all their
  requests, with the two variables \<open>completed\<close> and \<open>hasError\<close>. A promise keeps
  its first settlement.
\<close>

record batch =
  completed :: nat
  hasError :: bool
  settled :: "bool promise"

definition settle :: "'a promise \<Rightarrow> 'a promise \<Rightarrow> 'a promise" where
  "settle p new = (if p = Pending then new else p)"

definition onsuccess :: "nat \<Rightarrow> batch \<Rightarrow> batch" where
  "onsuccess n b =
     (let c = completed b + 1 in
      b\<lparr>completed := c,
        settled := (if c = n \<and> \<not> hasError b then settle (settled b) (Resolved True)
                    else settled b)\<rparr>)"

definition onerror :: "string \<Rightarrow> batch \<Rightarrow> batch" where
  "onerror e b =
     (if \<not> hasError b
      then b\<lparr>hasError := True, settled := settle (settled b) (Rejected (DOMException e))\<rparr>
      else b)"

fun dispatch :: "nat \<Rightarrow> string option list \<Rightarrow> batch \<Rightarrow> batch" where
  "dispatch n [] b = b"
| "dispatch n (None # events) b = dispatch n events (onsuccess n b)"
| "dispatch n (Some e # events) b = dispatch n events (onerror e b)"

text \<open>
  The loop of \<open>setItems\<close> (lines 333 to 355): for each item it builds the record
  and places the \<open>put\<close> request. \<open>dbItems\<close> returns the records of the requests
  placed, in order, and the exception that ended the loop, if any: when
  \<open>JSON.stringify\<close> throws on the value of an item (line 336), the exception leaves
  \<open>forEach\<close>, so no request is placed for this item or for the items after it,
  while the requests placed for the items before it stay in the transaction.
\<close>

fun dbItems :: "'n numfmt \<Rightarrow> (jsstring \<times> 'n jsval) list \<Rightarrow> world \<Rightarrow> (dbrecord list \<times> jserror option) \<times> world" where
  "dbItems N [] w = (([], None), w)"
| "dbItems N ((k, v) # items) w =
     (case serialize N v of
        Inl thrown \<Rightarrow> (([], Some thrown), w)
      | Inr x \<Rightarrow>
          (case date_now w of
             (t, w1) \<Rightarrow>
               (case dbItems N items w1 of
                  ((rs, thrown), w2) \<Rightarrow>
                    ((\<lparr>key = k, val = x, timestamp = t\<rparr> # rs, thrown), w2))))"

text \<open>
  \<open>setItems\<close> (lines 319 to 359). An exception that leaves the executor rejects the
  promise at once, before any request of the transaction is processed; the events
  of the requests placed come afterwards and find the promise settled. Nothing
  aborts the transaction in that case, so it commits what its requests wrote,
  unless one of them fails.
\<close>

definition setItems :: "'n numfmt \<Rightarrow> (jsstring \<times> 'n jsval) list \<Rightarrow> world \<Rightarrow> bool promise \<times> world" where
  "setItems N items w =
     (case ensureDB w of
        (Some e, w1) \<Rightarrow> (Rejected (DOMException e), w1)
      | (None, w1) \<Rightarrow>
          if length items = 0 then (Resolved True, w1)
          else
            (case dbItems N items w1 of
               ((rs, thrown), w2) \<Rightarrow>
                 (case transaction (map Put rs) w2 of
                    (events, w3) \<Rightarrow>
                      (settled (dispatch (length items) events
                         \<lparr>completed = 0, hasError = False,
                          settled = (case thrown of None \<Rightarrow> Pending | Some t \<Rightarrow> Rejected t)\<rparr>),
                       w3))))"

text \<open>\<open>removeItems\<close> (lines 418 to 453).\<close>

definition removeItems :: "jsstring list \<Rightarrow> world \<Rightarrow> bool promise \<times> world" where
  "removeItems keys w =
     (case ensureDB w of
        (Some e, w1) \<Rightarrow> (Rejected (DOMException e), w1)
      | (None, w1) \<Rightarrow>
          if length keys = 0 then (Resolved True, w1)
          else
            (case transaction (map Delete keys) w1 of
               (events, w2) \<Rightarrow>
                 (settled (dispatch (length keys) events
                    \<lparr>completed = 0, hasError = False, settled = Pending\<rparr>), w2)))"

subsection \<open>Migration from the legacy store\<close>

text \<open>
  The body of both loops of \<open>migrateFromLocalStorage\<close> (lines 573 to 583 and 590 to
  598): the entry of one key, parsed when it parses.
\<close>

definition legacy_item :: "'n numfmt \<Rightarrow> (jsstring \<times> jsstring) list \<Rightarrow> jsstring \<Rightarrow> (jsstring \<times> 'n jsval) list" where
  "legacy_item N ls k =
     (case map_of ls k of
        None \<Rightarrow> []
      | Some v \<Rightarrow>
          (case json_parse N v of
             Inr parsed \<Rightarrow> [(k, parsed)]
           | Inl e \<Rightarrow> [(k, JStr v)]))"

text \<open>
  \<open>itemsToMigrate\<close> (lines 568 to 601). The argument \<open>keys\<close> is optional; the
  condition \<open>keys && keys.length > 0\<close> sends an empty array to the second loop,
  which goes through \<open>localStorage.key(i)\<close> and skips a key that is falsy.
\<close>

definition all_legacy_items :: "'n numfmt \<Rightarrow> (jsstring \<times> jsstring) list \<Rightarrow> (jsstring \<times> 'n jsval) list" where
  "all_legacy_items N ls =
     concat (map (\<lambda>i. if fst (ls ! i) \<noteq> [] then legacy_item N ls (fst (ls ! i)) else [])
       [0 ..< length ls])"

definition itemsToMigrate :: "'n numfmt \<Rightarrow> jsstring list option \<Rightarrow> (jsstring \<times> jsstring) list \<Rightarrow> (jsstring \<times> 'n jsval) list" where
  "itemsToMigrate N keys ls =
     (case keys of
        None \<Rightarrow> all_legacy_items N ls
      | Some ks \<Rightarrow>
          if length ks > 0 then concat (map (legacy_item N ls) ks)
          else all_legacy_items N ls)"

text \<open>
  The removal after a successful write (lines 612 to 618): \<open>localStorage.removeItem\<close>
  for each of the given keys, or \<open>localStorage.clear()\<close>.
\<close>

definition ls_removeItem :: "jsstring \<Rightarrow> (jsstring \<times> jsstring) list \<Rightarrow> (jsstring \<times> jsstring) list" where
  "ls_removeItem k ls = filter (\<lambda>(k', v). k' \<noteq> k) ls"

definition clear_source :: "jsstring list option \<Rightarrow> (jsstring \<times> jsstring) list \<Rightarrow> (jsstring \<times> jsstring) list" where
  "clear_source keys ls =
     (case keys of
        None \<Rightarrow> []
      | Some ks \<Rightarrow> if length ks > 0 then fold ls_removeItem ks ls else [])"

text \<open>\<open>migrateFromLocalStorage\<close> (lines 564 to 632).\<close>

definition migrateFromLocalStorage :: "'n numfmt \<Rightarrow> jsstring list option \<Rightarrow> bool \<Rightarrow> world \<Rightarrow> nat promise \<times> world" where
  "migrateFromLocalStorage N keys clearLocalStorage w =
     (let items = itemsToMigrate N keys (localStorage w) in
      if length items = 0 then (Resolved 0, w)
      else
        (case setItems N items w of
           (Resolved ok, w1) \<Rightarrow>
             (Resolved (length items),
              if clearLocalStorage
              then w1\<lparr>localStorage := clear_source keys (localStorage w1)\<rparr>
              else w1)
         | (Rejected err, w1) \<Rightarrow> (Rejected err, w1)
         | (Pending, w1) \<Rightarrow> (Pending, w1)))"

text \<open>\<open>autoMigrateFromLocalStorage\<close> (lines 639 to 682).\<close>

definition autoMigrateFromLocalStorage :: "'n numfmt \<Rightarrow> world \<Rightarrow> bool promise \<times> world" where
  "autoMigrateFromLocalStorage N w =
     (case getCount w of
        (Resolved count, w1) \<Rightarrow>
          if count > 0 then (Resolved False, w1)
          else if length (localStorage w1) = 0 then (Resolved False, w1)
          else
            (case migrateFromLocalStorage N None False w1 of
               (Resolved migratedCount, w2) \<Rightarrow> (Resolved (migratedCount > 0), w2)
             | (Rejected err, w2) \<Rightarrow> (Resolved False, w2)
             | (Pending, w2) \<Rightarrow> (Pending, w2))
      | (Rejected err, w1) \<Rightarrow> (Resolved False, w1)
      | (Pending, w1) \<Rightarrow> (Pending, w1))"

section \<open>Example states\<close>

text \<open>
  \<open>fresh\<close> is the state before the service is constructed: no connection, no
  database, empty stores, a platform on which every request succeeds.
  \<open>connected rs ls\<close> is a state in which the connection is set up, the object store
  holds the records \<open>rs\<close> and the legacy store the entries \<open>ls\<close>.
\<close>

definition fresh :: world where
  "fresh =
     \<lparr>db = False, opens = 0, pending_opens = 0, db_version = 0, has_store = False,
      creates = 0, store = [], localStorage = [], requests = 0, fault = (\<lambda>n. None),
      clock_reads = 0, clock = (\<lambda>n. 1000 + n)\<rparr>"

definition connected :: "dbrecord list \<Rightarrow> (jsstring \<times> jsstring) list \<Rightarrow> world" where
  "connected rs ls =
     fresh\<lparr>db := True, opens := 1, db_version := 1, has_store := True, creates := 1,
       store := rs, localStorage := ls\<rparr>"

text \<open>
  A number format for the examples: the integers, written in decimal. It reads
  integer literals only (the examples contain no others).
\<close>

fun digits :: "nat \<Rightarrow> jsstring" where
  "digits n =
     (if n < 10 then [0x30 + of_nat n]
      else digits (n div 10) @ [0x30 + of_nat (n mod 10)])"

declare digits.simps [simp del]

definition show_int :: "int \<Rightarrow> jsstring" where
  "show_int i = (if i < 0 then 0x2D # digits (nat (- i)) else digits (nat i))"

definition read_nat :: "jsstring \<Rightarrow> nat" where
  "read_nat s = foldl (\<lambda>a c. 10 * a + (unat c - 48)) 0 s"

definition read_int :: "jsstring \<Rightarrow> int" where
  "read_int s =
     (case s of
        [] \<Rightarrow> 0
      | c # r \<Rightarrow> if c = 0x2D then - int (read_nat r) else int (read_nat s))"

definition integers :: "int numfmt" where
  "integers = \<lparr>num_show = (\<lambda>i. Some (show_int i)), num_read = read_int\<rparr>"

text \<open>Two records, in key order.\<close>

definition two_records :: "dbrecord list" where
  "two_records =
     [\<lparr>key = js ''app/lang'', val = Some (js ''en''), timestamp = 1\<rparr>,
      \<lparr>key = js ''widgets/a'', val = Some (js ''[1]''), timestamp = 2\<rparr>]"

text \<open>
  \<open>failing_at n w\<close> is \<open>w\<close> on a platform where the request processed \<open>n\<close> requests
  from now fails with a \<open>QuotaExceededError\<close> and every other request succeeds.
\<close>

definition failing_at :: "nat \<Rightarrow> world \<Rightarrow> world" where
  "failing_at n w =
     w\<lparr>fault := (\<lambda>i. if i = requests w + n then Some ''QuotaExceededError'' else None)\<rparr>"

definition two_items :: "(jsstring \<times> int jsval) list" where
  "two_items = [(js ''a'', JBool True), (js ''b'', JStr (js ''x''))]"

text \<open>
  A value that JSON represents: an object with an array of numbers, \<open>null\<close> and a
  boolean, and a string with a quote, a backslash, a line feed, a surrogate pair and
  a lone surrogate.
\<close>

definition settings :: "int jsval" where
  "settings =
     JObj [(js ''grid'', JArr [JNum 12, JNum (- 3), JNull, JBool True]),
           (js ''title'', JStr (c_quote # js ''a'' @ [c_backslash, 0x0A, 0xD83D, 0xDE00, 0xDC00]))]"

text \<open>Three items, the second with a value on which \<open>JSON.stringify\<close> throws.\<close>

definition throwing_items :: "(jsstring \<times> int jsval) list" where
  "throwing_items = [(js ''a'', JBool True), (js ''b'', JBigInt 10), (js ''c'', JNull)]"

section \<open>Properties of the platform model\<close>


lemma open_completes_frame:
  "open_completes w = (r, w') \<Longrightarrow>
     store w' = store w \<and> localStorage w' = localStorage w \<and> fault w' = fault w \<and>
     clock w' = clock w \<and> clock_reads w' = clock_reads w"
  by (auto simp: open_completes_def request_outcome_def onupgradeneeded_def
      split: option.splits if_splits)

lemma await_opens_frame:
  "await_opens n w = (r, w') \<Longrightarrow>
     store w' = store w \<and> localStorage w' = localStorage w \<and> fault w' = fault w \<and>
     clock w' = clock w \<and> clock_reads w' = clock_reads w"
proof (induction n w arbitrary: r w' rule: await_opens.induct)
  case (1 w)
  then show ?case by simp
next
  case (2 w)
  then show ?case using open_completes_frame [of w r w'] by simp
next
  case (3 n w)
  obtain r1 w1 where oc: "open_completes w = (r1, w1)" by (cases "open_completes w") auto
  with "3.prems" have "await_opens (Suc n) (snd (open_completes w)) = (r, w')" by simp
  from "3.IH" [OF this] open_completes_frame [OF oc] oc show ?case by simp
qed

lemma open_completes_db: "open_completes w = (None, w') \<Longrightarrow> db w'"
  by (auto simp: open_completes_def request_outcome_def split: option.splits if_splits)

lemma await_opens_db: "await_opens (Suc n) w = (None, w') \<Longrightarrow> db w'"
proof (induction n arbitrary: w)
  case 0
  then show ?case using open_completes_db [of w w'] by simp
next
  case (Suc n)
  then show ?case by simp
qed

lemma ensureDB_unfold:
  "\<not> db w \<Longrightarrow> ensureDB w = await_opens (Suc (pending_opens w)) (open_request w)"
  by (simp add: ensureDB_def initDB_def open_request_def Let_def)

lemma ensureDB_frame:
  "ensureDB w = (r, w') \<Longrightarrow>
     store w' = store w \<and> localStorage w' = localStorage w \<and> fault w' = fault w \<and>
     clock w' = clock w \<and> clock_reads w' = clock_reads w"
proof -
  assume h: "ensureDB w = (r, w')"
  show ?thesis
  proof (cases "db w")
    case True
    with h show ?thesis by (simp add: ensureDB_def)
  next
    case False
    with h have "await_opens (Suc (pending_opens w)) (open_request w) = (r, w')"
      by (simp add: ensureDB_unfold)
    from await_opens_frame [OF this] show ?thesis by (simp add: open_request_def)
  qed
qed

lemma ensureDB_db: "ensureDB w = (None, w') \<Longrightarrow> db w'"
proof -
  assume h: "ensureDB w = (None, w')"
  show ?thesis
  proof (cases "db w")
    case True
    with h show ?thesis by (simp add: ensureDB_def)
  next
    case False
    with h have "await_opens (Suc (pending_opens w)) (open_request w) = (None, w')"
      by (simp add: ensureDB_unfold)
    then show ?thesis by (rule await_opens_db)
  qed
qed

lemma ensureDB_connected: "db w \<Longrightarrow> ensureDB w = (None, w)"
  by (simp add: ensureDB_def)







section \<open>Properties of the operations\<close>

text \<open>What \<open>getItem\<close> settles to.\<close>

lemma json_parse_undefined: "json_parse N (js ''undefined'') = Inl SyntaxError"
  by (simp add: json_parse_def js_def is_ws_def next_token_def is_digit_def)

lemma decode_cases:
  "decode N None = JUndefined"
  "json_parse N s = Inr v \<Longrightarrow> decode N (Some s) = v"
  "json_parse N s = Inl e \<Longrightarrow> decode N (Some s) = JStr s"
  by (simp_all add: decode_def to_string_def raw_value_def json_parse_undefined)

lemma getItem_cases:
  "fst (getItem N k w) =
     (case fst (ensureDB w) of
        Some e \<Rightarrow> Rejected (DOMException e)
      | None \<Rightarrow>
          (case fault w (requests (snd (ensureDB w))) of
             Some e \<Rightarrow> Rejected (DOMException e)
           | None \<Rightarrow>
               (case store_get k (store w) of
                  None \<Rightarrow> Resolved JNull
                | Some r \<Rightarrow> Resolved (decode N (val r)))))"
proof -
  obtain r1 w1 where e: "ensureDB w = (r1, w1)" by (cases "ensureDB w") auto
  from ensureDB_frame [OF e] have f: "store w1 = store w" "fault w1 = fault w" by simp_all
  show ?thesis
    by (simp add: getItem_def e f request_outcome_def split: option.splits)
qed

text \<open>
  A transaction in which every request succeeds applies them in order; a transaction
  whose request \<open>i\<close> is the first to fail leaves the object store as it was.
\<close>

lemma exec_requests_ok:
  "(\<forall>j<length rs. fault w (requests w + j) = None) \<Longrightarrow>
   exec_requests rs w =
     (replicate (length rs) None,
      w\<lparr>requests := requests w + length rs, store := fold apply_request rs (store w)\<rparr>)"
proof (induction rs arbitrary: w)
  case Nil
  then show ?case by simp
next
  case (Cons r rs)
  from Cons.prems have f0: "fault w (requests w) = None" by force
  let ?w = "w\<lparr>requests := Suc (requests w), store := apply_request r (store w)\<rparr>"
  have "\<forall>j<length rs. fault ?w (requests ?w + j) = None"
    using Cons.prems by force
  from Cons.IH [OF this] f0 show ?case
    by (simp add: request_outcome_def)
qed

lemma exec_requests_fail:
  "i < length rs \<Longrightarrow> (\<forall>j<i. fault w (requests w + j) = None) \<Longrightarrow>
   fault w (requests w + i) = Some e \<Longrightarrow>
   exec_requests rs w =
     (replicate i None @ Some e # replicate (length rs - Suc i) (Some ''AbortError''),
      w\<lparr>requests := requests w + Suc i, store := fold apply_request (take i rs) (store w)\<rparr>)"
proof (induction rs arbitrary: w i)
  case Nil
  then show ?case by simp
next
  case (Cons r rs)
  show ?case
  proof (cases i)
    case 0
    with Cons.prems show ?thesis by (simp add: request_outcome_def map_replicate_const)
  next
    case (Suc i')
    from Cons.prems Suc have f0: "fault w (requests w) = None" by force
    let ?w = "w\<lparr>requests := Suc (requests w), store := apply_request r (store w)\<rparr>"
    have a: "i' < length rs" using Cons.prems Suc by simp
    have b: "\<forall>j<i'. fault ?w (requests ?w + j) = None"
      using Cons.prems Suc by force
    have c: "fault ?w (requests ?w + i') = Some e"
      using Cons.prems Suc by simp
    from Cons.IH [OF a b c] f0 Suc show ?thesis
      by (simp add: request_outcome_def)
  qed
qed

lemma transaction_ok:
  "(\<forall>j<length rs. fault w (requests w + j) = None) \<Longrightarrow>
   transaction rs w =
     (replicate (length rs) None,
      w\<lparr>requests := requests w + length rs, store := fold apply_request rs (store w)\<rparr>)"
  by (simp add: transaction_def exec_requests_ok list_ex_iff)

lemma transaction_fail:
  "i < length rs \<Longrightarrow> (\<forall>j<i. fault w (requests w + j) = None) \<Longrightarrow>
   fault w (requests w + i) = Some e \<Longrightarrow>
   transaction rs w =
     (replicate i None @ Some e # replicate (length rs - Suc i) (Some ''AbortError''),
      w\<lparr>requests := requests w + Suc i\<rparr>)"
  by (simp add: transaction_def exec_requests_fail list_ex_iff)

lemma first_fault:
  "\<not> (\<forall>j<(n::nat). f j = None) \<Longrightarrow> \<exists>i<n. (\<forall>j<i. f j = None) \<and> (\<exists>e. f i = Some (e::string))"
proof -
  assume "\<not> (\<forall>j<n. f j = None)"
  then have "\<exists>i. i < n \<and> f i \<noteq> None" by blast
  then obtain i where i: "i < n \<and> f i \<noteq> None" and m: "\<forall>j<i. \<not> (j < n \<and> f j \<noteq> None)"
    using exists_least_iff [of "\<lambda>i. i < n \<and> f i \<noteq> None"] by blast
  from i m have "\<forall>j<i. f j = None" by auto
  with i show ?thesis by auto
qed

text \<open>The handlers of a batch: successes before the last one leave the promise pending; after the first error nothing changes the promise.\<close>

lemma dispatch_successes:
  "c + i < n \<Longrightarrow>
   dispatch n (replicate i None @ es) \<lparr>completed = c, hasError = False, settled = Pending\<rparr> =
   dispatch n es \<lparr>completed = c + i, hasError = False, settled = Pending\<rparr>"
proof (induction i arbitrary: c)
  case 0
  then show ?case by simp
next
  case (Suc i)
  then have "Suc c + i < n" by simp
  from Suc.IH [OF this] Suc.prems show ?case
    by (simp add: onsuccess_def Let_def)
qed

lemma dispatch_after_error:
  "hasError b \<Longrightarrow> settled (dispatch n es b) = settled b"
proof (induction es arbitrary: b)
  case Nil
  then show ?case by simp
next
  case (Cons e es)
  show ?case
  proof (cases e)
    case None
    have "hasError (onsuccess n b)" using Cons.prems by (simp add: onsuccess_def Let_def)
    from Cons.IH [OF this] Cons.prems None show ?thesis
      by (simp add: onsuccess_def Let_def)
  next
    case (Some x)
    have "onerror x b = b" using Cons.prems by (simp add: onerror_def)
    with Cons.IH [OF Cons.prems] Some show ?thesis by simp
  qed
qed

lemma dispatch_all_success:
  "0 < n \<Longrightarrow>
   settled (dispatch n (replicate n None) \<lparr>completed = 0, hasError = False, settled = Pending\<rparr>)
     = Resolved True"
proof -
  assume "0 < n"
  then obtain m where n: "n = Suc m" by (cases n) auto
  have "replicate n (None :: string option) = replicate m None @ [None]"
    by (simp add: n replicate_append_same)
  moreover have "0 + m < n" by (simp add: n)
  ultimately show ?thesis
    using dispatch_successes [of 0 m n "[None]"]
    by (simp add: onsuccess_def Let_def settle_def n)
qed

lemma dispatch_first_error:
  "i < n \<Longrightarrow>
   settled (dispatch n (replicate i None @ Some e # es)
     \<lparr>completed = 0, hasError = False, settled = Pending\<rparr>) = Rejected (DOMException e)"
proof -
  assume "i < n"
  then have "0 + i < n" by simp
  from dispatch_successes [OF this, of "Some e # es"] show ?thesis
    by (simp add: onerror_def settle_def dispatch_after_error)
qed

text \<open>The only exception of \<open>JSON.stringify\<close> is the \<open>TypeError\<close>.\<close>

lemma json_stringify_throws:
  "json_stringify N v = Inl e \<Longrightarrow> e = TypeError"
  "stringify_elements N xs = Inl e \<Longrightarrow> e = TypeError"
  "stringify_members N kvs = Inl e \<Longrightarrow> e = TypeError"
  by (induction N v and N xs and N kvs arbitrary: e and e and e
      rule: json_stringify_stringify_elements_stringify_members.induct)
    (auto split: sum.splits)

lemma serialize_throws: "serialize N v = Inl e \<Longrightarrow> e = TypeError"
  using json_stringify_throws(1) [of N v e] by (cases v) (simp_all add: serialize_def)

lemma dispatch_settled:
  "settled b \<noteq> Pending \<Longrightarrow> settled (dispatch n es b) = settled b"
proof (induction es arbitrary: b)
  case Nil
  then show ?case by simp
next
  case (Cons e es)
  show ?case
  proof (cases e)
    case None
    have k: "settled (onsuccess n b) = settled b"
      using Cons.prems by (simp add: onsuccess_def Let_def settle_def)
    with Cons.prems have "settled (onsuccess n b) \<noteq> Pending" by simp
    from Cons.IH [OF this] k None show ?thesis by simp
  next
    case (Some x)
    have k: "settled (onerror x b) = settled b"
      using Cons.prems by (simp add: onerror_def settle_def)
    with Cons.prems have "settled (onerror x b) \<noteq> Pending" by simp
    from Cons.IH [OF this] k Some show ?thesis by simp
  qed
qed

text \<open>
  The loop places one record for each item before the first item whose value
  throws, with the key of its item and the serialized value, and reads the clock
  once for each.
\<close>

lemma dbItems_frame:
  "dbItems N items w = ((rs, thrown), w') \<Longrightarrow>
     w' = w\<lparr>clock_reads := clock_reads w + length rs\<rparr> \<and>
     length rs \<le> length items \<and>
     map key rs = map fst (take (length rs) items) \<and>
     map (\<lambda>r. Inr (val r)) rs = map (\<lambda>(k, v). serialize N v) (take (length rs) items) \<and>
     (thrown = None \<longrightarrow> length rs = length items) \<and>
     (\<forall>t. thrown = Some t \<longrightarrow>
        length rs < length items \<and> serialize N (snd (items ! length rs)) = Inl t)"
proof (induction items arbitrary: w rs thrown w')
  case Nil
  then show ?case by simp
next
  case (Cons kv items)
  obtain k v where kv: "kv = (k, v)" by (cases kv) auto
  show ?case
  proof (cases "serialize N v")
    case (Inl t)
    with Cons.prems kv show ?thesis by auto
  next
    case (Inr x)
    let ?w1 = "w\<lparr>clock_reads := Suc (clock_reads w)\<rparr>"
    obtain rs1 th1 w2 where d: "dbItems N items ?w1 = ((rs1, th1), w2)"
      by (cases "dbItems N items ?w1") auto
    from Cons.prems kv Inr d
    have r: "rs = \<lparr>key = k, val = x, timestamp = clock w (clock_reads w)\<rparr> # rs1"
      and t: "thrown = th1" and w: "w' = w2"
      by (simp_all add: date_now_def)
    from Cons.IH [OF d] r t w kv Inr show ?thesis by simp
  qed
qed

lemma transaction_single:
  "transaction [r] w =
     (case fault w (requests w) of
        None \<Rightarrow> ([None], w\<lparr>requests := Suc (requests w), store := apply_request r (store w)\<rparr>)
      | Some e \<Rightarrow> ([Some e], w\<lparr>requests := Suc (requests w)\<rparr>))"
  by (simp add: transaction_def request_outcome_def split: option.splits)

lemma transaction_none: "transaction [] w = ([], w)"
  by (simp add: transaction_def)

lemma setItem_cases:
  assumes e: "ensureDB w = (r, w1)"
  shows "setItem N k v w =
     (case r of
        Some e \<Rightarrow> (Rejected (DOMException e), w1)
      | None \<Rightarrow>
          (case serialize N v of
             Inl thrown \<Rightarrow> (Rejected thrown, w1)
           | Inr x \<Rightarrow>
               (case fault w (requests w1) of
                  Some e \<Rightarrow>
                    (Rejected (DOMException e),
                     w1\<lparr>clock_reads := Suc (clock_reads w), requests := Suc (requests w1)\<rparr>)
                | None \<Rightarrow>
                    (Resolved True,
                     w1\<lparr>clock_reads := Suc (clock_reads w), requests := Suc (requests w1),
                       store := store_put
                         \<lparr>key = k, val = x, timestamp = clock w (clock_reads w)\<rparr>
                         (store w)\<rparr>))))"
proof -
  from ensureDB_frame [OF e] have f:
    "store w1 = store w" "fault w1 = fault w" "clock w1 = clock w" "clock_reads w1 = clock_reads w"
    by simp_all
  show ?thesis
    by (simp add: setItem_def e f date_now_def transaction_single settle1_def
        split: option.splits sum.splits)
qed

lemma setItems_single: "setItems N [(k, v)] w = setItem N k v w"
proof -
  obtain r w1 where e: "ensureDB w = (r, w1)" by (cases "ensureDB w") auto
  from ensureDB_frame [OF e] have f:
    "store w1 = store w" "fault w1 = fault w" "clock w1 = clock w" "clock_reads w1 = clock_reads w"
    by simp_all
  show ?thesis
    by (simp add: setItem_cases [OF e] setItems_def e f date_now_def transaction_single
        transaction_none onsuccess_def onerror_def settle_def Let_def
        split: option.splits sum.splits)
qed

lemma fold_Put: "fold apply_request (map Put rs) st = fold store_put rs st"
  by (induction rs arbitrary: st) auto

lemma fold_Delete: "fold apply_request (map Delete ks) st = fold store_delete ks st"
  by (induction ks arbitrary: st) auto

text \<open>
  The two runs of a batch: all the requests placed succeed, or request \<open>i\<close> is the
  first to fail. In both, an exception thrown in the loop has already rejected the
  promise.
\<close>

lemma setItems_ok:
  assumes e: "ensureDB w = (None, w1)" and ne: "items \<noteq> []"
    and d: "dbItems N items w1 = ((rs, thrown), w2)"
    and ok: "\<forall>j<length rs. fault w (requests w1 + j) = None"
  shows "setItems N items w =
     ((case thrown of None \<Rightarrow> Resolved True | Some t \<Rightarrow> Rejected t),
      w1\<lparr>clock_reads := clock_reads w + length rs,
        requests := requests w1 + length rs,
        store := fold store_put rs (store w)\<rparr>)"
proof -
  from ensureDB_frame [OF e] have f:
    "store w1 = store w" "fault w1 = fault w" "clock_reads w1 = clock_reads w"
    by simp_all
  from dbItems_frame [OF d] have w2: "w2 = w1\<lparr>clock_reads := clock_reads w1 + length rs\<rparr>"
    and len: "thrown = None \<longrightarrow> length rs = length items"
    by simp_all
  have "\<forall>j<length (map Put rs). fault w2 (requests w2 + j) = None"
    using ok by (simp add: w2 f)
  from transaction_ok [OF this]
  have t: "transaction (map Put rs) w2 =
      (replicate (length rs) None,
       w1\<lparr>clock_reads := clock_reads w + length rs, requests := requests w1 + length rs,
         store := fold store_put rs (store w)\<rparr>)"
    by (simp add: fold_Put w2 f)
  show ?thesis
  proof (cases thrown)
    case None
    with len have l: "length rs = length items" by simp
    with ne have "0 < length items" by simp
    from dispatch_all_success [OF this] ne None show ?thesis
      by (simp add: setItems_def e d t l)
  next
    case (Some x)
    have "settled (dispatch (length items) (replicate (length rs) None)
        \<lparr>completed = 0, hasError = False, settled = Rejected x\<rparr>) = Rejected x"
      using dispatch_settled [of "\<lparr>completed = 0, hasError = False, settled = Rejected x\<rparr>"]
      by simp
    with ne Some show ?thesis
      by (simp add: setItems_def e d t)
  qed
qed

lemma setItems_fail:
  assumes e: "ensureDB w = (None, w1)"
    and d: "dbItems N items w1 = ((rs, thrown), w2)"
    and i: "i < length rs"
    and ok: "\<forall>j<i. fault w (requests w1 + j) = None"
    and bad: "fault w (requests w1 + i) = Some x"
  shows "setItems N items w =
     ((case thrown of None \<Rightarrow> Rejected (DOMException x) | Some t \<Rightarrow> Rejected t),
      w1\<lparr>clock_reads := clock_reads w + length rs, requests := requests w1 + Suc i\<rparr>)"
proof -
  from ensureDB_frame [OF e] have f:
    "store w1 = store w" "fault w1 = fault w" "clock_reads w1 = clock_reads w"
    by simp_all
  from dbItems_frame [OF d] have w2: "w2 = w1\<lparr>clock_reads := clock_reads w1 + length rs\<rparr>"
    and le: "length rs \<le> length items"
    by simp_all
  have a: "i < length (map Put rs)" using i by simp
  have b: "\<forall>j<i. fault w2 (requests w2 + j) = None" using ok by (simp add: w2 f)
  have c: "fault w2 (requests w2 + i) = Some x" using bad by (simp add: w2 f)
  from i le have n: "i < length items" and ne: "items \<noteq> []" by auto
  from transaction_fail [OF a b c]
  have t: "transaction (map Put rs) w2 =
      (replicate i None @ Some x # replicate (length rs - Suc i) (Some ''AbortError''),
       w1\<lparr>clock_reads := clock_reads w + length rs, requests := requests w1 + Suc i\<rparr>)"
    by (simp add: w2 f)
  show ?thesis
  proof (cases thrown)
    case None
    from dispatch_first_error [OF n] ne None show ?thesis
      by (simp add: setItems_def e d t)
  next
    case (Some y)
    have "settled (dispatch (length items)
        (replicate i None @ Some x # replicate (length rs - Suc i) (Some ''AbortError''))
        \<lparr>completed = 0, hasError = False, settled = Rejected y\<rparr>) = Rejected y"
      using dispatch_settled [of "\<lparr>completed = 0, hasError = False, settled = Rejected y\<rparr>"]
      by simp
    with ne Some show ?thesis
      by (simp add: setItems_def e d t)
  qed
qed

lemma setItems_empty: "ensureDB w = (None, w1) \<Longrightarrow> setItems N [] w = (Resolved True, w1)"
  by (simp add: setItems_def)

lemma removeItems_empty: "ensureDB w = (None, w1) \<Longrightarrow> removeItems [] w = (Resolved True, w1)"
  by (simp add: removeItems_def)

lemma setItems_no_connection:
  "ensureDB w = (Some e, w1) \<Longrightarrow> setItems N items w = (Rejected (DOMException e), w1)"
  by (simp add: setItems_def)

text \<open>Every outcome of \<open>setItems\<close>.\<close>

lemma setItems_outcomes:
  "(\<exists>e. fst (setItems N items w) = Rejected e)
   \<or> (fst (setItems N items w) = Resolved True \<and> fst (ensureDB w) = None \<and>
       (items \<noteq> [] \<longrightarrow>
          snd (fst (dbItems N items (snd (ensureDB w)))) = None \<and>
          (\<forall>j<length items. fault w (requests (snd (ensureDB w)) + j) = None)))"
proof -
  obtain r w1 where e: "ensureDB w = (r, w1)" by (cases "ensureDB w") auto
  obtain rs thrown w2 where d: "dbItems N items w1 = ((rs, thrown), w2)"
    by (cases "dbItems N items w1") auto
  from dbItems_frame [OF d] have len: "thrown = None \<longrightarrow> length rs = length items" by simp
  show ?thesis
  proof (cases r)
    case (Some x)
    with e show ?thesis by (simp add: setItems_no_connection)
  next
    case None
    show ?thesis
    proof (cases "items = []")
      case True
      with e None show ?thesis by (simp add: setItems_empty)
    next
      case ne: False
      show ?thesis
      proof (cases "\<forall>j<length rs. fault w (requests w1 + j) = None")
        case True
        from setItems_ok [OF e [unfolded None] ne d True] e None True d len show ?thesis
          by (cases thrown) simp_all
      next
        case False
        from first_fault [OF False] obtain i x where
          "i < length rs" "\<forall>j<i. fault w (requests w1 + j) = None" "fault w (requests w1 + i) = Some x"
          by blast
        from setItems_fail [OF e [unfolded None] d this] show ?thesis
          by (cases thrown) simp_all
      qed
    qed
  qed
qed

lemma setItems_localStorage: "localStorage (snd (setItems N items w)) = localStorage w"
proof -
  obtain r w1 where e: "ensureDB w = (r, w1)" by (cases "ensureDB w") auto
  obtain rs thrown w2 where d: "dbItems N items w1 = ((rs, thrown), w2)"
    by (cases "dbItems N items w1") auto
  from ensureDB_frame [OF e] have f: "localStorage w1 = localStorage w" by simp
  show ?thesis
  proof (cases r)
    case (Some x)
    with e f show ?thesis by (simp add: setItems_no_connection)
  next
    case None
    show ?thesis
    proof (cases "items = []")
      case True
      with e f None show ?thesis by (simp add: setItems_empty)
    next
      case ne: False
      show ?thesis
      proof (cases "\<forall>j<length rs. fault w (requests w1 + j) = None")
        case True
        from setItems_ok [OF e [unfolded None] ne d True] f show ?thesis by simp
      next
        case False
        from first_fault [OF False] obtain i x where
          "i < length rs" "\<forall>j<i. fault w (requests w1 + j) = None" "fault w (requests w1 + i) = Some x"
          by blast
        from setItems_fail [OF e [unfolded None] d this] f show ?thesis by simp
      qed
    qed
  qed
qed

lemma setItems_settles:
  "fst (setItems N items w) = Resolved True \<or> (\<exists>e. fst (setItems N items w) = Rejected e)"
  using setItems_outcomes [of N items w] by blast

lemma migrate_empty:
  "itemsToMigrate N keys (localStorage w) = [] \<Longrightarrow>
   migrateFromLocalStorage N keys c w = (Resolved 0, w)"
  by (simp add: migrateFromLocalStorage_def)

lemma migrate_Resolved:
  assumes "itemsToMigrate N keys (localStorage w) \<noteq> []"
    and "fst (setItems N (itemsToMigrate N keys (localStorage w)) w) = Resolved b"
  shows "migrateFromLocalStorage N keys c w =
     (Resolved (length (itemsToMigrate N keys (localStorage w))),
      if c then (snd (setItems N (itemsToMigrate N keys (localStorage w)) w))
                  \<lparr>localStorage := clear_source keys (localStorage w)\<rparr>
      else snd (setItems N (itemsToMigrate N keys (localStorage w)) w))"
proof -
  let ?items = "itemsToMigrate N keys (localStorage w)"
  obtain p w1 where s: "setItems N ?items w = (p, w1)" by (cases "setItems N ?items w") auto
  with assms(2) have p: "p = Resolved b" by simp
  from setItems_localStorage [of N ?items w] s have "localStorage w1 = localStorage w" by simp
  with assms(1) s p show ?thesis
    by (simp add: migrateFromLocalStorage_def Let_def)
qed

lemma migrate_Rejected:
  assumes "itemsToMigrate N keys (localStorage w) \<noteq> []"
    and "fst (setItems N (itemsToMigrate N keys (localStorage w)) w) = Rejected e"
  shows "migrateFromLocalStorage N keys c w =
     (Rejected e, snd (setItems N (itemsToMigrate N keys (localStorage w)) w))"
proof -
  let ?items = "itemsToMigrate N keys (localStorage w)"
  obtain p w1 where s: "setItems N ?items w = (p, w1)" by (cases "setItems N ?items w") auto
  with assms show ?thesis
    by (simp add: migrateFromLocalStorage_def Let_def)
qed

lemma migrate_settles:
  "(\<exists>n. fst (migrateFromLocalStorage N keys c w) = Resolved n)
   \<or> (\<exists>e. fst (migrateFromLocalStorage N keys c w) = Rejected e)"
proof (cases "itemsToMigrate N keys (localStorage w) = []")
  case True
  then show ?thesis by (simp add: migrate_empty)
next
  case False
  from setItems_settles [of N "itemsToMigrate N keys (localStorage w)" w] show ?thesis
  proof
    assume "fst (setItems N (itemsToMigrate N keys (localStorage w)) w) = Resolved True"
    from migrate_Resolved [OF False this] show ?thesis by simp
  next
    assume "\<exists>e. fst (setItems N (itemsToMigrate N keys (localStorage w)) w) = Rejected e"
    then obtain e where "fst (setItems N (itemsToMigrate N keys (localStorage w)) w) = Rejected e" ..
    from migrate_Rejected [OF False this] show ?thesis by simp
  qed
qed

text \<open>The outcomes of \<open>getCount\<close> and of the automatic migration.\<close>

lemma getCount_cases:
  "getCount w =
     (case fst (ensureDB w) of
        Some e \<Rightarrow> (Rejected (DOMException e), snd (ensureDB w))
      | None \<Rightarrow>
          (case fault w (requests (snd (ensureDB w))) of
             Some e \<Rightarrow> (Rejected (DOMException e), (snd (ensureDB w))\<lparr>requests := Suc (requests (snd (ensureDB w)))\<rparr>)
           | None \<Rightarrow> (Resolved (length (store w)), (snd (ensureDB w))\<lparr>requests := Suc (requests (snd (ensureDB w)))\<rparr>)))"
proof -
  obtain r1 w1 where e: "ensureDB w = (r1, w1)" by (cases "ensureDB w") auto
  from ensureDB_frame [OF e] have f: "store w1 = store w" "fault w1 = fault w" by simp_all
  show ?thesis
    by (simp add: getCount_def e f request_outcome_def split: option.splits)
qed

lemma getCount_frame:
  "store (snd (getCount w)) = store w \<and> localStorage (snd (getCount w)) = localStorage w"
proof -
  obtain r1 w1 where e: "ensureDB w = (r1, w1)" by (cases "ensureDB w") auto
  from ensureDB_frame [OF e] show ?thesis
    by (simp add: getCount_cases e split: option.splits)
qed

lemma getCount_settles:
  "fst (getCount w) = Resolved (length (store w)) \<or> (\<exists>e. fst (getCount w) = Rejected e)"
  by (simp add: getCount_cases split: option.splits)

lemma auto_nonempty_destination:
  "store w \<noteq> [] \<Longrightarrow> autoMigrateFromLocalStorage N w = (Resolved False, snd (getCount w))"
proof -
  assume ne: "store w \<noteq> []"
  obtain p w1 where g: "getCount w = (p, w1)" by (cases "getCount w") auto
  from getCount_settles [of w] g have "p = Resolved (length (store w)) \<or> (\<exists>e. p = Rejected e)" by simp
  with ne g show ?thesis
    by (auto simp: autoMigrateFromLocalStorage_def)
qed

lemma auto_empty_source:
  "localStorage w = [] \<Longrightarrow> autoMigrateFromLocalStorage N w = (Resolved False, snd (getCount w))"
proof -
  assume em: "localStorage w = []"
  obtain p w1 where g: "getCount w = (p, w1)" by (cases "getCount w") auto
  from getCount_frame [of w] g em have l: "localStorage w1 = []" by simp
  from getCount_settles [of w] g have "p = Resolved (length (store w)) \<or> (\<exists>e. p = Rejected e)" by simp
  with l g show ?thesis
    by (auto simp: autoMigrateFromLocalStorage_def)
qed

lemma auto_count_fails:
  "fst (getCount w) = Rejected e \<Longrightarrow> autoMigrateFromLocalStorage N w = (Resolved False, snd (getCount w))"
  by (cases "getCount w") (simp add: autoMigrateFromLocalStorage_def)

lemma auto_migration_fails:
  "fst (getCount w) = Resolved 0 \<Longrightarrow> localStorage w \<noteq> [] \<Longrightarrow>
   fst (migrateFromLocalStorage N None False (snd (getCount w))) = Rejected e \<Longrightarrow>
   fst (autoMigrateFromLocalStorage N w) = Resolved False"
proof -
  assume c: "fst (getCount w) = Resolved 0" and ne: "localStorage w \<noteq> []"
    and m: "fst (migrateFromLocalStorage N None False (snd (getCount w))) = Rejected e"
  obtain p w1 where g: "getCount w = (p, w1)" by (cases "getCount w") auto
  from getCount_frame [of w] g ne have l: "localStorage w1 \<noteq> []" by simp
  obtain q w2 where mm: "migrateFromLocalStorage N None False w1 = (q, w2)"
    by (cases "migrateFromLocalStorage N None False w1") auto
  from c g m mm l show ?thesis
    by (simp add: autoMigrateFromLocalStorage_def)
qed

lemma auto_settles:
  "fst (autoMigrateFromLocalStorage N w) = Resolved True
   \<or> fst (autoMigrateFromLocalStorage N w) = Resolved False"
proof -
  obtain p w1 where g: "getCount w = (p, w1)" by (cases "getCount w") auto
  obtain q w2 where mm: "migrateFromLocalStorage N None False w1 = (q, w2)"
    by (cases "migrateFromLocalStorage N None False w1") auto
  from getCount_settles [of w] g have p: "(\<exists>n. p = Resolved n) \<or> (\<exists>e. p = Rejected e)" by auto
  from migrate_settles [of N None False w1] mm
  have q: "(\<exists>n. q = Resolved n) \<or> (\<exists>e. q = Rejected e)" by simp
  from p q g mm show ?thesis
    by (auto simp: autoMigrateFromLocalStorage_def split: if_splits)
qed

section \<open>The read-only views\<close>





section \<open>Reading one item\<close>

text \<open>
  Claim C7. \<open>getItem(k)\<close> never rejects with a \<open>SyntaxError\<close> and always settles.
  When the connection is available and the read request succeeds, it resolves to
  \<open>null\<close> if the store has no record for \<open>k\<close>; if it has one whose value is the
  string \<open>s\<close>, it resolves to what \<open>JSON.parse(s)\<close> returns, and to \<open>s\<close> itself
  when \<open>JSON.parse(s)\<close> throws; a record whose value is \<open>undefined\<close> gives
  \<open>undefined\<close>.
\<close>

theorem getItem_null_or_decoded:
  "fst (getItem N k w) \<noteq> Rejected SyntaxError \<and> fst (getItem N k w) \<noteq> Pending
   \<and> (fst (ensureDB w) = None \<and> fault w (requests (snd (ensureDB w))) = None \<longrightarrow>
        (store_get k (store w) = None \<longrightarrow> fst (getItem N k w) = Resolved JNull)
      \<and> (\<forall>r s v. store_get k (store w) = Some r \<and> val r = Some s \<and> json_parse N s = Inr v
            \<longrightarrow> fst (getItem N k w) = Resolved v)
      \<and> (\<forall>r s e. store_get k (store w) = Some r \<and> val r = Some s \<and> json_parse N s = Inl e
            \<longrightarrow> fst (getItem N k w) = Resolved (JStr s))
      \<and> (\<forall>r. store_get k (store w) = Some r \<and> val r = None
            \<longrightarrow> fst (getItem N k w) = Resolved JUndefined))"
proof -
  have a: "fst (getItem N k w) \<noteq> Rejected SyntaxError \<and> fst (getItem N k w) \<noteq> Pending"
    by (simp add: getItem_cases split: option.splits)
  have b: "fst (ensureDB w) = None \<and> fault w (requests (snd (ensureDB w))) = None \<longrightarrow>
        (store_get k (store w) = None \<longrightarrow> fst (getItem N k w) = Resolved JNull)
      \<and> (\<forall>r s v. store_get k (store w) = Some r \<and> val r = Some s \<and> json_parse N s = Inr v
            \<longrightarrow> fst (getItem N k w) = Resolved v)
      \<and> (\<forall>r s e. store_get k (store w) = Some r \<and> val r = Some s \<and> json_parse N s = Inl e
            \<longrightarrow> fst (getItem N k w) = Resolved (JStr s))
      \<and> (\<forall>r. store_get k (store w) = Some r \<and> val r = None
            \<longrightarrow> fst (getItem N k w) = Resolved JUndefined)"
    by (auto simp: getItem_cases decode_cases)
  from a b show ?thesis by (intro conjI) blast+
qed

theorem getItem_null_or_decoded_witness:
  "fst (ensureDB (connected two_records [])) = None
   \<and> fault (connected two_records []) (requests (snd (ensureDB (connected two_records [])))) = None
   \<and> store_get (js ''nothing'') (store (connected two_records [])) = None
   \<and> fst (getItem integers (js ''nothing'') (connected two_records [])) = Resolved JNull
   \<and> json_parse integers (js ''en'') = Inl SyntaxError
   \<and> fst (getItem integers (js ''app/lang'') (connected two_records [])) = Resolved (JStr (js ''en''))
   \<and> json_parse integers (js ''[1]'') = Inr (JArr [JNum 1])
   \<and> fst (getItem integers (js ''widgets/a'') (connected two_records [])) = Resolved (JArr [JNum 1])"
proof -
  let ?w = "connected two_records []"
  have c: "fst (ensureDB ?w) = None \<and> fault ?w (requests (snd (ensureDB ?w))) = None"
    by (simp add: ensureDB_def connected_def fresh_def)
  have n: "store_get (js ''nothing'') (store ?w) = None" by code_simp
  have l: "store_get (js ''app/lang'') (store ?w) = Some (two_records ! 0) \<and> val (two_records ! 0) = Some (js ''en'')"
    by code_simp
  have a: "store_get (js ''widgets/a'') (store ?w) = Some (two_records ! 1) \<and> val (two_records ! 1) = Some (js ''[1]'')"
    by code_simp
  have pl: "json_parse integers (js ''en'') = Inl SyntaxError" by code_simp
  have pa: "json_parse integers (js ''[1]'') = Inr (JArr [JNum 1])" by code_simp
  from getItem_null_or_decoded [of integers "js ''nothing''" ?w] c n
  have g1: "fst (getItem integers (js ''nothing'') ?w) = Resolved JNull" by blast
  from getItem_null_or_decoded [of integers "js ''app/lang''" ?w] c l pl
  have g2: "fst (getItem integers (js ''app/lang'') ?w) = Resolved (JStr (js ''en''))" by blast
  from getItem_null_or_decoded [of integers "js ''widgets/a''" ?w] c a pa
  have g3: "fst (getItem integers (js ''widgets/a'') ?w) = Resolved (JArr [JNum 1])" by blast
  from c n pl pa g1 g2 g3 show ?thesis by (intro conjI) blast+
qed

section \<open>Writing one item, alone or as a batch of one\<close>

text \<open>
  Claim C9. \<open>setItems([{key: k, value: v}])\<close> and \<open>setItem(k, v)\<close> do the same: the
  same promise and the same state afterwards, so the same record (and the same
  rejection when \<open>JSON.stringify\<close> throws). When they succeed the record written is
  \<open>{key: k, value: v or JSON.stringify(v), timestamp}\<close> with the time read from the
  clock, and a later \<open>getItem(k)\<close> cannot tell them apart.
\<close>

theorem setItems_single_is_setItem:
  "setItems N [(k, v)] w = setItem N k v w
   \<and> (fst (setItem N k v w) = Resolved True \<longrightarrow>
        (\<exists>x. serialize N v = Inr x \<and>
           store (snd (setItem N k v w)) =
             store_put \<lparr>key = k, val = x, timestamp = clock w (clock_reads w)\<rparr> (store w)))
   \<and> getItem N k (snd (setItems N [(k, v)] w)) = getItem N k (snd (setItem N k v w))"
proof -
  obtain r w1 where e: "ensureDB w = (r, w1)" by (cases "ensureDB w") auto
  have "fst (setItem N k v w) = Resolved True \<longrightarrow>
        (\<exists>x. serialize N v = Inr x \<and>
           store (snd (setItem N k v w)) =
             store_put \<lparr>key = k, val = x, timestamp = clock w (clock_reads w)\<rparr> (store w))"
    by (simp add: setItem_cases [OF e] split: option.splits sum.splits)
  then show ?thesis by (simp add: setItems_single)
qed

theorem setItems_single_is_setItem_witness:
  "fst (setItem integers (js ''lang'') (JStr (js ''en'')) (connected [] [])) = Resolved True
   \<and> setItems integers [(js ''lang'', JStr (js ''en''))] (connected [] [])
       = setItem integers (js ''lang'') (JStr (js ''en'')) (connected [] [])
   \<and> store (snd (setItems integers [(js ''lang'', JStr (js ''en''))] (connected [] [])))
       = [\<lparr>key = js ''lang'', val = Some (js ''en''), timestamp = 1000\<rparr>]"
proof -
  let ?w = "connected [] []"
  have a: "fst (setItem integers (js ''lang'') (JStr (js ''en'')) ?w) = Resolved True"
    by code_simp
  have s: "serialize integers (JStr (js ''en'')) = Inr (Some (js ''en''))"
    by (simp add: serialize_def)
  have b: "store_put \<lparr>key = js ''lang'', val = Some (js ''en''),
                      timestamp = clock ?w (clock_reads ?w)\<rparr> (store ?w)
      = [\<lparr>key = js ''lang'', val = Some (js ''en''), timestamp = 1000\<rparr>]"
    by code_simp
  note t = setItems_single_is_setItem [of integers "js ''lang''" "JStr (js ''en'')" ?w]
  from t a obtain x where x: "serialize integers (JStr (js ''en'')) = Inr x"
    and st: "store (snd (setItem integers (js ''lang'') (JStr (js ''en'')) ?w)) =
      store_put \<lparr>key = js ''lang'', val = x, timestamp = clock ?w (clock_reads ?w)\<rparr> (store ?w)"
    by blast
  from x s have "x = Some (js ''en'')" by simp
  with t a st b show ?thesis by simp
qed

section \<open>Batch writes\<close>

text \<open>
  Claim C4, as the code has it. Provided the connection is available:
  \<open>setItems([])\<close> and \<open>removeItems([])\<close> resolve to \<open>true\<close> and process no request.
  \<open>setItems\<close> goes through the items in order and places one \<open>put\<close> per item, in
  one transaction, each with the key of its item and the serialized value; it
  stops at the first item on whose value \<open>JSON.stringify\<close> throws (\<open>rs\<close> are the
  records of the requests placed, \<open>thrown\<close> the exception, a \<open>TypeError\<close>).
  \<^item> If nothing is thrown, there is one request per item. It resolves (to \<open>true\<close>)
    exactly when every request succeeds, and then all the records are in the store.
    When request \<open>i\<close> is the first to fail it rejects with the error of that
    request.
  \<^item> Whenever a request fails, the store afterwards is what it was before the call:
    the failed request aborts the transaction, which undoes the writes already
    applied.
  \<^item> If something is thrown, it rejects with what was thrown; the requests placed
    for the items before are processed all the same, and when they all succeed
    their records stay in the store.
  The promise is always settled.
\<close>

theorem setItems_all_or_abort:
  assumes conn: "ensureDB w = (None, w1)"
    and placed: "fst (dbItems N items w1) = (rs, thrown)"
  shows "setItems N [] w = (Resolved True, w1) \<and> removeItems [] w = (Resolved True, w1)
    \<and> map key rs = map fst (take (length rs) items)
    \<and> map (\<lambda>r. Inr (val r)) rs = map (\<lambda>(k, v). serialize N v) (take (length rs) items)
    \<and> (thrown = None \<longrightarrow> length rs = length items)
    \<and> (\<forall>t. thrown = Some t \<longrightarrow>
          t = TypeError \<and> length rs < length items
          \<and> serialize N (snd (items ! length rs)) = Inl t)
    \<and> (items \<noteq> [] \<and> thrown = None \<and> (\<forall>j<length rs. fault w (requests w1 + j) = None)
        \<longrightarrow> fst (setItems N items w) = Resolved True
          \<and> store (snd (setItems N items w)) = fold store_put rs (store w))
    \<and> (\<forall>i e. i < length rs \<and> (\<forall>j<i. fault w (requests w1 + j) = None)
              \<and> fault w (requests w1 + i) = Some e
        \<longrightarrow> store (snd (setItems N items w)) = store w
          \<and> (thrown = None \<longrightarrow> fst (setItems N items w) = Rejected (DOMException e)))
    \<and> (\<forall>t. thrown = Some t
        \<longrightarrow> fst (setItems N items w) = Rejected t
          \<and> ((\<forall>j<length rs. fault w (requests w1 + j) = None)
               \<longrightarrow> store (snd (setItems N items w)) = fold store_put rs (store w)))
    \<and> (items \<noteq> [] \<and> fst (setItems N items w) = Resolved True
        \<longrightarrow> thrown = None \<and> (\<forall>j<length rs. fault w (requests w1 + j) = None))
    \<and> fst (setItems N items w) \<noteq> Pending"
proof -
  obtain w2 where d: "dbItems N items w1 = ((rs, thrown), w2)"
    using placed by (cases "dbItems N items w1") auto
  note fr = dbItems_frame [OF d]
  from ensureDB_frame [OF conn] have f: "store w1 = store w" by simp
  have a: "setItems N [] w = (Resolved True, w1)" "removeItems [] w = (Resolved True, w1)"
    using conn by (simp_all add: setItems_empty removeItems_empty)
  have b1: "map key rs = map fst (take (length rs) items)" using fr by blast
  have b2: "map (\<lambda>r. Inr (val r)) rs = map (\<lambda>(k, v). serialize N v) (take (length rs) items)"
    using fr by blast
  have b3: "thrown = None \<longrightarrow> length rs = length items" using fr by blast
  have b4: "\<forall>t. thrown = Some t \<longrightarrow>
          t = TypeError \<and> length rs < length items
          \<and> serialize N (snd (items ! length rs)) = Inl t"
    using fr serialize_throws by blast
  have c: "items \<noteq> [] \<and> thrown = None \<and> (\<forall>j<length rs. fault w (requests w1 + j) = None)
        \<longrightarrow> fst (setItems N items w) = Resolved True
          \<and> store (snd (setItems N items w)) = fold store_put rs (store w)"
    using setItems_ok [OF conn _ d] by simp
  have e: "\<forall>i e. i < length rs \<and> (\<forall>j<i. fault w (requests w1 + j) = None)
              \<and> fault w (requests w1 + i) = Some e
        \<longrightarrow> store (snd (setItems N items w)) = store w
          \<and> (thrown = None \<longrightarrow> fst (setItems N items w) = Rejected (DOMException e))"
  proof (intro allI impI)
    fix i e
    assume "i < length rs \<and> (\<forall>j<i. fault w (requests w1 + j) = None)
              \<and> fault w (requests w1 + i) = Some e"
    then have "setItems N items w =
       ((case thrown of None \<Rightarrow> Rejected (DOMException e) | Some t \<Rightarrow> Rejected t),
        w1\<lparr>clock_reads := clock_reads w + length rs, requests := requests w1 + Suc i\<rparr>)"
      using setItems_fail [OF conn d, of i e] by blast
    with f show "store (snd (setItems N items w)) = store w
          \<and> (thrown = None \<longrightarrow> fst (setItems N items w) = Rejected (DOMException e))"
      by simp
  qed
  have t: "\<forall>t. thrown = Some t
        \<longrightarrow> fst (setItems N items w) = Rejected t
          \<and> ((\<forall>j<length rs. fault w (requests w1 + j) = None)
               \<longrightarrow> store (snd (setItems N items w)) = fold store_put rs (store w))"
  proof (intro allI impI)
    fix t assume th: "thrown = Some t"
    with b4 have ne: "items \<noteq> []" by auto
    show "fst (setItems N items w) = Rejected t
          \<and> ((\<forall>j<length rs. fault w (requests w1 + j) = None)
               \<longrightarrow> store (snd (setItems N items w)) = fold store_put rs (store w))"
    proof (cases "\<forall>j<length rs. fault w (requests w1 + j) = None")
      case True
      from setItems_ok [OF conn ne d True] th show ?thesis by simp
    next
      case False
      from first_fault [OF False] obtain i x where
        "i < length rs" "\<forall>j<i. fault w (requests w1 + j) = None" "fault w (requests w1 + i) = Some x"
        by blast
      from setItems_fail [OF conn d this] th False show ?thesis by auto
    qed
  qed
  have g: "items \<noteq> [] \<and> fst (setItems N items w) = Resolved True
        \<longrightarrow> thrown = None \<and> (\<forall>j<length rs. fault w (requests w1 + j) = None)"
  proof
    assume h: "items \<noteq> [] \<and> fst (setItems N items w) = Resolved True"
    with setItems_outcomes [of N items w] conn d
    have "thrown = None \<and> (\<forall>j<length items. fault w (requests w1 + j) = None)" by auto
    with b3 show "thrown = None \<and> (\<forall>j<length rs. fault w (requests w1 + j) = None)" by simp
  qed
  have h: "fst (setItems N items w) \<noteq> Pending"
    using setItems_settles [of N items w] by auto
  from a b1 b2 b3 b4 c e t g h show ?thesis by (intro conjI)
qed

text \<open>
  The claim's sentence, that the writes applied before the failing one stay, fails
  when a write request fails: of two items whose second \<open>put\<close> fails, the first is
  not in the store afterwards.
\<close>

theorem setItems_rollback_counterexample:
  "fst (setItems integers two_items (failing_at 1 (connected [] [])))
      = Rejected (DOMException ''QuotaExceededError'')
   \<and> fault (failing_at 1 (connected [] [])) (requests (failing_at 1 (connected [] []))) = None
   \<and> store (snd (setItems integers two_items (failing_at 1 (connected [] [])))) = []"
  by code_simp

theorem setItems_all_or_abort_witness:
  "ensureDB (failing_at 1 (connected [] [])) = (None, failing_at 1 (connected [] []))
   \<and> setItems integers [] (failing_at 1 (connected [] [])) = (Resolved True, failing_at 1 (connected [] []))
   \<and> fst (dbItems integers two_items (failing_at 1 (connected [] [])))
        = ([\<lparr>key = js ''a'', val = Some (js ''true''), timestamp = 1000\<rparr>,
            \<lparr>key = js ''b'', val = Some (js ''x''), timestamp = 1001\<rparr>], None)
   \<and> fst (setItems integers two_items (failing_at 1 (connected [] [])))
        = Rejected (DOMException ''QuotaExceededError'')
   \<and> store (snd (setItems integers two_items (failing_at 1 (connected [] [])))) = []
   \<and> ensureDB (connected [] []) = (None, connected [] [])
   \<and> fst (dbItems integers throwing_items (connected [] []))
        = ([\<lparr>key = js ''a'', val = Some (js ''true''), timestamp = 1000\<rparr>], Some TypeError)
   \<and> fst (setItems integers throwing_items (connected [] [])) = Rejected TypeError
   \<and> store (snd (setItems integers throwing_items (connected [] [])))
        = [\<lparr>key = js ''a'', val = Some (js ''true''), timestamp = 1000\<rparr>]"
proof -
  let ?w = "failing_at 1 (connected [] [])"
  let ?v = "connected [] []"
  let ?a = "\<lparr>key = js ''a'', val = Some (js ''true''), timestamp = 1000\<rparr>"
  let ?b = "\<lparr>key = js ''b'', val = Some (js ''x''), timestamp = 1001\<rparr>"
  have c: "ensureDB ?w = (None, ?w)"
    by (simp add: ensureDB_def failing_at_def connected_def)
  have p: "fst (dbItems integers two_items ?w) = ([?a, ?b], None)" by code_simp
  have i: "(1::nat) < length [?a, ?b] \<and> (\<forall>j<1. fault ?w (requests ?w + j) = None)
     \<and> fault ?w (requests ?w + 1) = Some ''QuotaExceededError''"
    by (simp add: failing_at_def connected_def fresh_def)
  note t = setItems_all_or_abort [OF c p]
  from t have e: "setItems integers [] ?w = (Resolved True, ?w)" by blast
  from t i have r: "store (snd (setItems integers two_items ?w)) = store ?w
      \<and> fst (setItems integers two_items ?w) = Rejected (DOMException ''QuotaExceededError'')"
    by blast
  have s: "store ?w = []" by (simp add: failing_at_def connected_def fresh_def)
  have c': "ensureDB ?v = (None, ?v)"
    by (simp add: ensureDB_def connected_def)
  have p': "fst (dbItems integers throwing_items ?v) = ([?a], Some TypeError)" by code_simp
  have i': "\<forall>j<length [?a]. fault ?v (requests ?v + j) = None"
    by (simp add: connected_def fresh_def)
  note t' = setItems_all_or_abort [OF c' p']
  from t' i' have r': "fst (setItems integers throwing_items ?v) = Rejected TypeError
      \<and> store (snd (setItems integers throwing_items ?v)) = fold store_put [?a] (store ?v)"
    by blast
  have s': "fold store_put [?a] (store ?v) = [?a]"
    by (simp add: connected_def fresh_def)
  from c e p r s c' p' r' s' show ?thesis by simp
qed

section \<open>Migration\<close>

text \<open>
  Claim C3. In \<open>migrateFromLocalStorage(keys, true)\<close> the legacy store changes only
  after the batch write has succeeded: if the batch write (\<open>setItems\<close> on the items
  to migrate) rejects, the operation rejects with the same error and the legacy
  store is as before; if the legacy store is different afterwards, the batch write
  resolved and its records are in the object store; and whenever the operation does
  not resolve, the legacy store is as before.
\<close>

theorem legacy_cleared_only_after_write:
  "(\<forall>e. itemsToMigrate N keys (localStorage w) \<noteq> [] \<and>
         fst (setItems N (itemsToMigrate N keys (localStorage w)) w) = Rejected e
      \<longrightarrow> fst (migrateFromLocalStorage N keys True w) = Rejected e
          \<and> localStorage (snd (migrateFromLocalStorage N keys True w)) = localStorage w)
   \<and> (localStorage (snd (migrateFromLocalStorage N keys True w)) \<noteq> localStorage w
      \<longrightarrow> fst (setItems N (itemsToMigrate N keys (localStorage w)) w) = Resolved True
          \<and> store (snd (migrateFromLocalStorage N keys True w))
              = store (snd (setItems N (itemsToMigrate N keys (localStorage w)) w)))
   \<and> ((\<forall>n. fst (migrateFromLocalStorage N keys True w) \<noteq> Resolved n)
      \<longrightarrow> localStorage (snd (migrateFromLocalStorage N keys True w)) = localStorage w)"
proof (cases "itemsToMigrate N keys (localStorage w) = []")
  case True
  then show ?thesis by (simp add: migrate_empty)
next
  case False
  let ?items = "itemsToMigrate N keys (localStorage w)"
  from setItems_settles [of N ?items w] show ?thesis
  proof
    assume r: "fst (setItems N ?items w) = Resolved True"
    from migrate_Resolved [OF False r, of True] r show ?thesis by simp
  next
    assume "\<exists>e. fst (setItems N ?items w) = Rejected e"
    then obtain e where r: "fst (setItems N ?items w) = Rejected e" ..
    from migrate_Rejected [OF False r, of True] r setItems_localStorage [of N ?items w]
    show ?thesis by simp
  qed
qed

theorem legacy_cleared_only_after_write_witness:
  "itemsToMigrate integers None (localStorage (failing_at 0 (connected [] [(js ''lang'', js ''en'')]))) \<noteq> []
   \<and> fst (setItems integers
         (itemsToMigrate integers None (localStorage (failing_at 0 (connected [] [(js ''lang'', js ''en'')]))))
         (failing_at 0 (connected [] [(js ''lang'', js ''en'')])))
       = Rejected (DOMException ''QuotaExceededError'')
   \<and> fst (migrateFromLocalStorage integers None True (failing_at 0 (connected [] [(js ''lang'', js ''en'')])))
       = Rejected (DOMException ''QuotaExceededError'')
   \<and> localStorage (snd (migrateFromLocalStorage integers None True
         (failing_at 0 (connected [] [(js ''lang'', js ''en'')]))))
       = [(js ''lang'', js ''en'')]"
proof -
  let ?w = "failing_at 0 (connected [] [(js ''lang'', js ''en'')])"
  have a: "itemsToMigrate integers None (localStorage ?w) \<noteq> []" by code_simp
  have b: "fst (setItems integers (itemsToMigrate integers None (localStorage ?w)) ?w)
       = Rejected (DOMException ''QuotaExceededError'')" by code_simp
  have l: "localStorage ?w = [(js ''lang'', js ''en'')]"
    by (simp add: failing_at_def connected_def fresh_def)
  from legacy_cleared_only_after_write [of integers None ?w] a b
  have "fst (migrateFromLocalStorage integers None True ?w) = Rejected (DOMException ''QuotaExceededError'')
     \<and> localStorage (snd (migrateFromLocalStorage integers None True ?w)) = localStorage ?w"
    by blast
  with a b l show ?thesis by simp
qed

text \<open>
  Claim C2. \<open>autoMigrateFromLocalStorage\<close> resolves to \<open>false\<close> and leaves the object
  store alone when the object store is not empty (the state afterwards is the state
  after \<open>getCount\<close>: no other request is made), whatever the legacy store holds; it
  resolves to \<open>false\<close> when the legacy store is empty; it resolves to \<open>false\<close> when
  the count fails and when the migration fails; it never rejects and always settles.
\<close>

theorem autoMigrate_best_effort:
  "(store w \<noteq> [] \<longrightarrow>
      fst (autoMigrateFromLocalStorage N w) = Resolved False
      \<and> snd (autoMigrateFromLocalStorage N w) = snd (getCount w)
      \<and> store (snd (autoMigrateFromLocalStorage N w)) = store w)
   \<and> (localStorage w = [] \<longrightarrow> fst (autoMigrateFromLocalStorage N w) = Resolved False)
   \<and> (\<forall>e. fst (getCount w) = Rejected e \<longrightarrow> fst (autoMigrateFromLocalStorage N w) = Resolved False)
   \<and> (\<forall>e. fst (getCount w) = Resolved 0 \<and> localStorage w \<noteq> []
          \<and> fst (migrateFromLocalStorage N None False (snd (getCount w))) = Rejected e
        \<longrightarrow> fst (autoMigrateFromLocalStorage N w) = Resolved False)
   \<and> (fst (autoMigrateFromLocalStorage N w) = Resolved True
        \<or> fst (autoMigrateFromLocalStorage N w) = Resolved False)"
proof -
  have a: "store w \<noteq> [] \<longrightarrow>
      fst (autoMigrateFromLocalStorage N w) = Resolved False
      \<and> snd (autoMigrateFromLocalStorage N w) = snd (getCount w)
      \<and> store (snd (autoMigrateFromLocalStorage N w)) = store w"
    using getCount_frame [of w] by (simp add: auto_nonempty_destination)
  have b: "localStorage w = [] \<longrightarrow> fst (autoMigrateFromLocalStorage N w) = Resolved False"
    by (simp add: auto_empty_source)
  have c: "\<forall>e. fst (getCount w) = Rejected e \<longrightarrow> fst (autoMigrateFromLocalStorage N w) = Resolved False"
    by (simp add: auto_count_fails)
  have d: "\<forall>e. fst (getCount w) = Resolved 0 \<and> localStorage w \<noteq> []
          \<and> fst (migrateFromLocalStorage N None False (snd (getCount w))) = Rejected e
        \<longrightarrow> fst (autoMigrateFromLocalStorage N w) = Resolved False"
    using auto_migration_fails [of w N] by blast
  from a b c d auto_settles [of N w] show ?thesis by (intro conjI)
qed

theorem autoMigrate_best_effort_witness:
  "store (connected two_records [(js ''lang'', js ''en'')]) \<noteq> []
   \<and> fst (autoMigrateFromLocalStorage integers (connected two_records [(js ''lang'', js ''en'')]))
       = Resolved False
   \<and> store (snd (autoMigrateFromLocalStorage integers (connected two_records [(js ''lang'', js ''en'')])))
       = two_records
   \<and> fst (getCount (failing_at 0 (connected [] [(js ''lang'', js ''en'')])))
       = Rejected (DOMException ''QuotaExceededError'')
   \<and> fst (autoMigrateFromLocalStorage integers (failing_at 0 (connected [] [(js ''lang'', js ''en'')])))
       = Resolved False"
proof -
  let ?w = "connected two_records [(js ''lang'', js ''en'')]"
  let ?v = "failing_at 0 (connected [] [(js ''lang'', js ''en'')])"
  have s: "store ?w = two_records" by (simp add: connected_def fresh_def)
  have ne: "store ?w \<noteq> []" by (simp add: connected_def fresh_def two_records_def)
  have g: "fst (getCount ?v) = Rejected (DOMException ''QuotaExceededError'')" by code_simp
  from autoMigrate_best_effort [of ?w integers] ne
  have a: "fst (autoMigrateFromLocalStorage integers ?w) = Resolved False
     \<and> store (snd (autoMigrateFromLocalStorage integers ?w)) = store ?w" by blast
  from autoMigrate_best_effort [of ?v integers] g
  have b: "fst (autoMigrateFromLocalStorage integers ?v) = Resolved False" by blast
  from ne a b g s show ?thesis by simp
qed

text \<open>The items that \<open>migrateFromLocalStorage\<close> collects.\<close>

lemma decode_Some:
  "decode N (Some v) = (case json_parse N v of Inr parsed \<Rightarrow> parsed | Inl e \<Rightarrow> JStr v)"
  by (simp add: decode_def to_string_def raw_value_def split: sum.splits)

lemma legacy_item_decode:
  "legacy_item N ls k = (case map_of ls k of None \<Rightarrow> [] | Some v \<Rightarrow> [(k, decode N (Some v))])"
  by (simp add: legacy_item_def decode_Some split: option.splits sum.splits)

lemma given_items:
  "concat (map (legacy_item N ls) ks) =
     map (\<lambda>k. (k, decode N (map_of ls k))) (filter (\<lambda>k. k \<in> fst ` set ls) ks)"
proof (induction ks)
  case Nil
  then show ?case by simp
next
  case (Cons k ks)
  show ?case
  proof (cases "map_of ls k")
    case None
    then have "k \<notin> fst ` set ls" by (simp add: map_of_eq_None_iff)
    with None Cons.IH show ?thesis by (simp add: legacy_item_decode)
  next
    case (Some v)
    then have "k \<in> fst ` set ls" by (metis map_of_eq_None_iff option.distinct(1))
    with Some Cons.IH show ?thesis by (simp add: legacy_item_decode)
  qed
qed

lemma all_items:
  assumes d: "distinct (map fst ls)" and ne: "[] \<notin> fst ` set ls"
  shows "all_legacy_items N ls = map (\<lambda>(k, v). (k, decode N (Some v))) ls"
proof -
  let ?g = "\<lambda>e. if fst e \<noteq> [] then legacy_item N ls (fst e) else []"
  have "map (\<lambda>i. ?g (ls ! i)) [0 ..< length ls] = map ?g (map ((!) ls) [0 ..< length ls])"
    by simp
  also have "\<dots> = map ?g ls" by (simp only: map_nth)
  finally have a: "all_legacy_items N ls = concat (map ?g ls)"
    by (simp add: all_legacy_items_def)
  have "?g e = [(fst e, decode N (Some (snd e)))]" if "e \<in> set ls" for e
  proof -
    from that ne have k: "fst e \<noteq> []" by force
    from that d have "map_of ls (fst e) = Some (snd e)" by simp
    with k show ?thesis by (simp add: legacy_item_decode)
  qed
  then have "map ?g ls = map (\<lambda>e. [(fst e, decode N (Some (snd e)))]) ls"
    by (intro map_cong refl)
  then have "concat (map ?g ls) = concat (map (\<lambda>e. [(fst e, decode N (Some (snd e)))]) ls)"
    by (rule arg_cong)
  then have "concat (map ?g ls) = map (\<lambda>e. (fst e, decode N (Some (snd e)))) ls"
    by (simp only: concat_map_singleton)
  with a show ?thesis by (simp add: case_prod_beta)
qed

text \<open>
  Claim C6, as the code has it. With a non-empty array \<open>keys\<close>, the items migrated
  are those of the given keys that the legacy store has, in the order given, each
  with its value parsed (or raw when it does not parse). With \<open>keys\<close> omitted, or
  given as an empty array, every entry of the legacy store is migrated (stated for
  a legacy store that has no entry under the empty string). The count returned is the
  number of items; when there is no item the operation resolves to 0 and leaves the
  whole state as it is; when it resolves to a positive count the batch write has
  succeeded and the object store is the one the batch write left.
\<close>

theorem migrate_selects_and_counts:
  "(ks \<noteq> [] \<longrightarrow>
      itemsToMigrate N (Some ks) ls =
        map (\<lambda>k. (k, decode N (map_of ls k))) (filter (\<lambda>k. k \<in> fst ` set ls) ks))
   \<and> (distinct (map fst ls) \<and> [] \<notin> fst ` set ls \<longrightarrow>
        itemsToMigrate N None ls = map (\<lambda>(k, v). (k, decode N (Some v))) ls
      \<and> itemsToMigrate N (Some []) ls = map (\<lambda>(k, v). (k, decode N (Some v))) ls)
   \<and> (\<forall>n. fst (migrateFromLocalStorage N keys c w) = Resolved n \<longrightarrow>
        n = length (itemsToMigrate N keys (localStorage w)))
   \<and> (itemsToMigrate N keys (localStorage w) = [] \<longrightarrow>
        migrateFromLocalStorage N keys c w = (Resolved 0, w))
   \<and> (\<forall>n. fst (migrateFromLocalStorage N keys c w) = Resolved n \<and> 0 < n \<longrightarrow>
        fst (setItems N (itemsToMigrate N keys (localStorage w)) w) = Resolved True
      \<and> store (snd (migrateFromLocalStorage N keys c w))
          = store (snd (setItems N (itemsToMigrate N keys (localStorage w)) w)))"
proof -
  let ?items = "itemsToMigrate N keys (localStorage w)"
  have a: "ks \<noteq> [] \<longrightarrow>
      itemsToMigrate N (Some ks) ls =
        map (\<lambda>k. (k, decode N (map_of ls k))) (filter (\<lambda>k. k \<in> fst ` set ls) ks)"
    by (simp add: itemsToMigrate_def given_items)
  have b: "distinct (map fst ls) \<and> [] \<notin> fst ` set ls \<longrightarrow>
        itemsToMigrate N None ls = map (\<lambda>(k, v). (k, decode N (Some v))) ls
      \<and> itemsToMigrate N (Some []) ls = map (\<lambda>(k, v). (k, decode N (Some v))) ls"
    by (simp add: itemsToMigrate_def all_items)
  have cases: "(?items = [] \<and> migrateFromLocalStorage N keys c w = (Resolved 0, w))
     \<or> (?items \<noteq> [] \<and> fst (setItems N ?items w) = Resolved True
         \<and> fst (migrateFromLocalStorage N keys c w) = Resolved (length ?items)
         \<and> store (snd (migrateFromLocalStorage N keys c w)) = store (snd (setItems N ?items w)))
     \<or> (?items \<noteq> [] \<and> (\<exists>e. fst (migrateFromLocalStorage N keys c w) = Rejected e))"
  proof (cases "?items = []")
    case True
    then show ?thesis by (simp add: migrate_empty)
  next
    case False
    from setItems_settles [of N ?items w] show ?thesis
    proof
      assume r: "fst (setItems N ?items w) = Resolved True"
      from migrate_Resolved [OF False r, of c] False r show ?thesis by simp
    next
      assume "\<exists>e. fst (setItems N ?items w) = Rejected e"
      then obtain e where r: "fst (setItems N ?items w) = Rejected e" ..
      from migrate_Rejected [OF False r, of c] False show ?thesis by simp
    qed
  qed
  have c: "\<forall>n. fst (migrateFromLocalStorage N keys c w) = Resolved n \<longrightarrow> n = length ?items"
    using cases by auto
  have d: "?items = [] \<longrightarrow> migrateFromLocalStorage N keys c w = (Resolved 0, w)"
    by (simp add: migrate_empty)
  have e: "\<forall>n. fst (migrateFromLocalStorage N keys c w) = Resolved n \<and> 0 < n \<longrightarrow>
        fst (setItems N ?items w) = Resolved True
      \<and> store (snd (migrateFromLocalStorage N keys c w)) = store (snd (setItems N ?items w))"
    using cases by auto
  from a b c d e show ?thesis by (intro conjI)
qed

text \<open>
  The claim as stated fails for an array \<open>keys\<close> that is given and empty: the entries
  of the legacy store are migrated although none of them is among the given keys.
\<close>

theorem migrate_empty_keys_counterexample:
  "itemsToMigrate integers (Some []) [(js ''lang'', js ''en'')] = [(js ''lang'', JStr (js ''en''))]
   \<and> fst (migrateFromLocalStorage integers (Some []) False (connected [] [(js ''lang'', js ''en'')]))
       = Resolved 1
   \<and> map key (store (snd (migrateFromLocalStorage integers (Some []) False
         (connected [] [(js ''lang'', js ''en'')])))) = [js ''lang'']"
  by code_simp

theorem migrate_selects_and_counts_witness:
  "[js ''lang'', js ''theme''] \<noteq> []
   \<and> itemsToMigrate integers (Some [js ''lang'', js ''theme'']) [(js ''n'', js ''7''), (js ''lang'', js ''en'')]
       = [(js ''lang'', JStr (js ''en''))]
   \<and> distinct (map fst [(js ''n'', js ''7''), (js ''lang'', js ''en'')])
   \<and> [] \<notin> fst ` set [(js ''n'', js ''7''), (js ''lang'', js ''en'')]
   \<and> itemsToMigrate integers None [(js ''n'', js ''7''), (js ''lang'', js ''en'')]
       = [(js ''n'', JNum 7), (js ''lang'', JStr (js ''en''))]
   \<and> fst (migrateFromLocalStorage integers None False (connected [] [(js ''n'', js ''7''), (js ''lang'', js ''en'')]))
       = Resolved 2
   \<and> migrateFromLocalStorage integers None True (connected two_records [])
       = (Resolved 0, connected two_records [])"
proof -
  let ?ls = "[(js ''n'', js ''7''), (js ''lang'', js ''en'')]"
  let ?ks = "[js ''lang'', js ''theme'']"
  let ?w = "connected [] ?ls"
  have k: "?ks \<noteq> []" by simp
  have wf: "distinct (map fst ?ls) \<and> [] \<notin> fst ` set ?ls" by (simp add: js_def)
  have g: "map (\<lambda>k. (k, decode integers (map_of ?ls k))) (filter (\<lambda>k. k \<in> fst ` set ?ls) ?ks)
      = [(js ''lang'', JStr (js ''en''))]"
    by code_simp
  have al: "map (\<lambda>(k, v). (k, decode integers (Some v))) ?ls
      = [(js ''n'', JNum 7), (js ''lang'', JStr (js ''en''))]"
    by code_simp
  have r: "fst (migrateFromLocalStorage integers None False ?w) = Resolved 2" by code_simp
  have e: "itemsToMigrate integers None (localStorage (connected two_records [])) = []"
    by code_simp
  note t1 = migrate_selects_and_counts [of ?ks integers ?ls None False ?w]
  note t2 = migrate_selects_and_counts [of ?ks integers ?ls None True "connected two_records []"]
  from t1 k g have a: "itemsToMigrate integers (Some ?ks) ?ls = [(js ''lang'', JStr (js ''en''))]"
    by simp
  from t1 wf al have b: "itemsToMigrate integers None ?ls = [(js ''n'', JNum 7), (js ''lang'', JStr (js ''en''))]"
    by simp
  from t2 e have c: "migrateFromLocalStorage integers None True (connected two_records [])
       = (Resolved 0, connected two_records [])" by blast
  from k a wf b r c show ?thesis by (intro conjI) blast+
qed

section \<open>Setting up the connection\<close>














section \<open>JSON.parse after JSON.stringify\<close>

subsection \<open>Strings\<close>

text \<open>Four hexadecimal digits are read back as the code unit they were written from.\<close>

lemma hex_value_hex_digit: "d < 16 \<Longrightarrow> hex_value (hex_digit d) = Some d"
proof -
  assume "d < 16"
  then have "d = 0 \<or> d = 1 \<or> d = 2 \<or> d = 3 \<or> d = 4 \<or> d = 5 \<or> d = 6 \<or> d = 7 \<or> d = 8
    \<or> d = 9 \<or> d = 10 \<or> d = 11 \<or> d = 12 \<or> d = 13 \<or> d = 14 \<or> d = 15" by arith
  then show ?thesis
    by (elim disjE) (simp_all add: hex_digit_def hex_value_def)
qed

lemma hex_recombine:
  "((n div 4096 * 16 + n div 256 mod 16) * 16 + n div 16 mod 16) * 16 + n mod 16 = (n::nat)"
proof -
  have "n div 4096 = n div 256 div 16" by (simp add: div_mult2_eq [symmetric])
  then have a: "n div 4096 * 16 + n div 256 mod 16 = n div 256"
    using div_mult_mod_eq [of "n div 256" 16] by simp
  have "n div 256 = n div 16 div 16" by (simp add: div_mult2_eq [symmetric])
  then have b: "n div 256 * 16 + n div 16 mod 16 = n div 16"
    using div_mult_mod_eq [of "n div 16" 16] by simp
  have c: "n div 16 * 16 + n mod 16 = n" by simp
  show ?thesis by (simp only: a b c)
qed


lemma hex4_unicode_escape:
  "unicode_escape c = [c_backslash, 0x75, h1, h2, h3, h4] \<Longrightarrow> hex4 h1 h2 h3 h4 = Some c"
proof -
  assume h: "unicode_escape c = [c_backslash, 0x75, h1, h2, h3, h4]"
  let ?n = "unat c"
  have b: "?n < 65536" using unsigned_less [of c] by simp
  then have d: "?n div 4096 < 16" "?n div 256 mod 16 < 16" "?n div 16 mod 16 < 16" "?n mod 16 < 16"
    by simp_all
  from h have e: "h1 = hex_digit (?n div 4096)" "h2 = hex_digit (?n div 256 mod 16)"
    "h3 = hex_digit (?n div 16 mod 16)" "h4 = hex_digit (?n mod 16)"
    by (simp_all add: unicode_escape_def Let_def)
  have "hex4 h1 h2 h3 h4 =
      Some (of_nat (((?n div 4096 * 16 + ?n div 256 mod 16) * 16 + ?n div 16 mod 16) * 16 + ?n mod 16))"
    unfolding hex4_def e by (simp only: hex_value_hex_digit [OF d(1)] hex_value_hex_digit [OF d(2)]
        hex_value_hex_digit [OF d(3)] hex_value_hex_digit [OF d(4)] prod.case option.case)
  also have "\<dots> = Some (of_nat ?n)" by (simp only: hex_recombine)
  finally show ?thesis by simp
qed

lemma lex_string_unicode_escape:
  "lex_string (unicode_escape c @ r) = map_option (apfst ((#) c)) (lex_string r)"
proof -
  obtain h1 h2 h3 h4 where u: "unicode_escape c = [c_backslash, 0x75, h1, h2, h3, h4]"
    by (simp add: unicode_escape_def Let_def)
  from hex4_unicode_escape [OF u] show ?thesis
    by (simp add: u)
qed

lemma lex_string_literal:
  "\<not> c < 0x20 \<Longrightarrow> c \<noteq> c_quote \<Longrightarrow> c \<noteq> c_backslash \<Longrightarrow>
   lex_string (c # r) = map_option (apfst ((#) c)) (lex_string r)"
  by simp

lemma surrogate_literal:
  "is_high_surrogate c \<or> is_low_surrogate c \<Longrightarrow>
   \<not> c < 0x20 \<and> c \<noteq> c_quote \<and> c \<noteq> c_backslash"
  by (auto simp: is_high_surrogate_def is_low_surrogate_def word_le_nat_alt word_less_nat_alt)

lemma lex_string_escape_char:
  "lex_string (escape_char c @ r) = map_option (apfst ((#) c)) (lex_string r)"
proof -
  consider "c = 0x08" | "c = 0x09" | "c = 0x0A" | "c = 0x0C" | "c = 0x0D" | "c = c_quote"
    | "c = c_backslash"
    | "c \<notin> {0x08, 0x09, 0x0A, 0x0C, 0x0D, c_quote, c_backslash}"
      "c < 0x20 \<or> is_high_surrogate c \<or> is_low_surrogate c"
    | "c \<notin> {0x08, 0x09, 0x0A, 0x0C, 0x0D, c_quote, c_backslash}"
      "\<not> (c < 0x20 \<or> is_high_surrogate c \<or> is_low_surrogate c)"
    by blast
  then show ?thesis
  proof cases
    case 1 then show ?thesis by (simp add: escape_char_def unescape_def)
  next
    case 2 then show ?thesis by (simp add: escape_char_def unescape_def)
  next
    case 3 then show ?thesis by (simp add: escape_char_def unescape_def)
  next
    case 4 then show ?thesis by (simp add: escape_char_def unescape_def)
  next
    case 5 then show ?thesis by (simp add: escape_char_def unescape_def)
  next
    case 6 then show ?thesis by (simp add: escape_char_def unescape_def)
  next
    case 7 then show ?thesis by (simp add: escape_char_def unescape_def)
  next
    case 8
    then have "escape_char c = unicode_escape c" by (simp add: escape_char_def)
    then show ?thesis by (simp only: lex_string_unicode_escape)
  next
    case 9
    then have "escape_char c = [c]" by (simp add: escape_char_def)
    with 9 show ?thesis by simp
  qed
qed

lemma lex_string_quote_chars:
  "lex_string (quote_chars s @ c_quote # rest) = Some (s, rest)"
proof (induction s rule: quote_chars.induct)
  case 1
  show ?case by simp
next
  case (2 c)
  show ?case by (simp add: lex_string_escape_char del: lex_string.simps) simp
next
  case (3 c d cs)
  show ?case
  proof (cases "is_high_surrogate c \<and> is_low_surrogate d")
    case True
    then have c: "\<not> c < 0x20 \<and> c \<noteq> c_quote \<and> c \<noteq> c_backslash"
      and d: "\<not> d < 0x20 \<and> d \<noteq> c_quote \<and> d \<noteq> c_backslash"
      using surrogate_literal by blast+
    from True have q: "quote_chars (c # d # cs) = c # d # quote_chars cs" by simp
    from "3.IH"(1) [OF True] c d show ?thesis
      by (simp only: q append_Cons lex_string_literal) simp
  next
    case False
    then have q: "quote_chars (c # d # cs) = escape_char c @ quote_chars (d # cs)"
      by auto
    from False "3.IH"(2) show ?thesis
      by (simp only: q append_assoc lex_string_escape_char) simp
  qed
qed

lemma next_token_quote: "next_token (quote s @ rest) = Some (TString s, rest)"
  by (simp add: quote_def next_token_def lex_string_quote_chars del: lex_string.simps)

subsection \<open>Number literals\<close>

text \<open>A number literal followed by a delimiter is scanned as the same literal.\<close>

definition delimited :: "jsstring \<Rightarrow> bool" where
  "delimited r = (case r of [] \<Rightarrow> True | c # _ \<Rightarrow> c = c_comma \<or> c = c_rbracket \<or> c = c_rbrace)"

lemma delimited_simps [simp]:
  "delimited []" "delimited (c_comma # r)" "delimited (c_rbracket # r)" "delimited (c_rbrace # r)"
  by (simp_all add: delimited_def)

lemma delimited_no_digit:
  "delimited r \<Longrightarrow> takeWhile is_digit r = []"
  by (cases r) (auto simp: delimited_def is_digit_def)

lemma digits_then_delimiter:
  "delimited r \<Longrightarrow>
   takeWhile is_digit (xs @ r) = takeWhile is_digit xs \<and>
   dropWhile is_digit (xs @ r) = dropWhile is_digit xs @ r"
proof (induction xs)
  case Nil
  then show ?case
    using delimited_no_digit [of r] by (cases r) (auto simp: takeWhile_eq_Nil_iff)
next
  case (Cons x xs)
  then show ?case by simp
qed

lemma scan_int_then_delimiter:
  "scan_int a = Some (ip, r1) \<Longrightarrow> delimited r \<Longrightarrow> scan_int (a @ r) = Some (ip, r1 @ r)"
  by (cases a) (auto simp: scan_int_def digits_then_delimiter split: if_splits)

lemma delimited_cases:
  "delimited r \<Longrightarrow> r = [] \<or> (\<exists>c t. r = c # t \<and> c \<noteq> 0x2E \<and> c \<noteq> 0x65 \<and> c \<noteq> 0x45)"
  by (cases r) (auto simp: delimited_def)

lemma scan_frac_then_delimiter:
  "scan_frac a = Some (fp, r2) \<Longrightarrow> delimited r \<Longrightarrow> scan_frac (a @ r) = Some (fp, r2 @ r)"
proof (cases a)
  case Nil
  assume "scan_frac a = Some (fp, r2)" "delimited r"
  with Nil delimited_cases [of r] show ?thesis
    by (auto simp: scan_frac_def)
next
  case (Cons c t)
  assume "scan_frac a = Some (fp, r2)" "delimited r"
  with Cons show ?thesis
    by (auto simp: scan_frac_def digits_then_delimiter split: if_splits)
qed

lemma scan_exp_then_delimiter:
  "scan_exp a = Some (ep, r3) \<Longrightarrow> delimited r \<Longrightarrow> scan_exp (a @ r) = Some (ep, r3 @ r)"
proof (cases a)
  case Nil
  assume "scan_exp a = Some (ep, r3)" "delimited r"
  with Nil delimited_cases [of r] show ?thesis
    by (auto simp: scan_exp_def)
next
  case (Cons c t)
  assume h: "scan_exp a = Some (ep, r3)" and d: "delimited r"
  show ?thesis
  proof (cases "c = 0x65 \<or> c = 0x45")
    case False
    with h Cons show ?thesis by (auto simp: scan_exp_def)
  next
    case True
    obtain sg t' where s: "scan_sign t = (sg, t')" by (cases "scan_sign t") auto
    from h Cons True s have ne: "takeWhile is_digit t' \<noteq> []"
      and ep: "ep = c # sg @ takeWhile is_digit t'" and r3: "r3 = dropWhile is_digit t'"
      by (auto simp: scan_exp_def split: if_splits)
    from ne have t': "t' \<noteq> []" by auto
    with s have tne: "t \<noteq> []" by (auto simp: scan_sign_def)
    with s have s': "scan_sign (t @ r) = (sg, t' @ r)"
      by (cases t) (auto simp: scan_sign_def split: if_splits)
    from True Cons s' ne ep r3 d show ?thesis
      by (simp add: scan_exp_def digits_then_delimiter)
  qed
qed

lemma scan_number_then_delimiter:
  assumes h: "scan_number a = Some (l, r0)" and d: "delimited r"
  shows "scan_number (a @ r) = Some (l, r0 @ r)"
proof -
  let ?sgn = "\<lambda>cs :: jsstring. case cs of [] \<Rightarrow> ([], cs) | c # t \<Rightarrow> if c = 0x2D then ([c], t) else ([], cs)"
  obtain sg a0 where s0: "?sgn a = (sg, a0)" by (cases "?sgn a") auto
  from h s0 obtain ip r1 where s1: "scan_int a0 = Some (ip, r1)"
    by (auto simp: scan_number_def split: option.splits)
  from h s0 s1 obtain fp r2 where s2: "scan_frac r1 = Some (fp, r2)"
    by (auto simp: scan_number_def split: option.splits)
  from h s0 s1 s2 obtain ep where s3: "scan_exp r2 = Some (ep, r0)" and l: "l = sg @ ip @ fp @ ep"
    by (auto simp: scan_number_def split: option.splits)
  from s1 have "a0 \<noteq> []" by (auto simp: scan_int_def)
  with s0 have "a \<noteq> []" by auto
  with s0 have s0': "?sgn (a @ r) = (sg, a0 @ r)"
    by (cases a) (auto split: if_splits)
  from s0' scan_int_then_delimiter [OF s1 d] scan_frac_then_delimiter [OF s2 d]
    scan_exp_then_delimiter [OF s3 d] l
  show ?thesis by (simp add: scan_number_def)
qed

lemma digit_not_punctuation:
  "c = 0x2D \<or> is_digit c \<Longrightarrow>
   c \<noteq> c_lbrace \<and> c \<noteq> c_rbrace \<and> c \<noteq> c_lbracket \<and> c \<noteq> c_rbracket \<and> c \<noteq> c_colon
   \<and> c \<noteq> c_comma \<and> c \<noteq> c_quote \<and> \<not> is_ws c"
  by (auto simp: is_digit_def is_ws_def word_le_nat_alt)

lemma number_literal_head:
  "scan_number l = Some (l', r) \<Longrightarrow> \<exists>c t. l = c # t \<and> (c = 0x2D \<or> is_digit c)"
proof (cases l)
  case Nil
  assume "scan_number l = Some (l', r)"
  with Nil show ?thesis by (simp add: scan_number_def scan_int_def)
next
  case (Cons c t)
  assume "scan_number l = Some (l', r)"
  with Cons show ?thesis
    by (cases "c = 0x2D") (auto simp: scan_number_def scan_int_def is_digit_def split: option.splits if_splits)
qed

lemma next_token_number:
  assumes h: "scan_number l = Some (l, [])" and d: "delimited r"
  shows "next_token (l @ r) = Some (TNumber l, r)"
proof -
  from number_literal_head [OF h] obtain c t where l: "l = c # t" and c: "c = 0x2D \<or> is_digit c"
    by blast
  from scan_number_then_delimiter [OF h d] have s: "scan_number (c # t @ r) = Some (c # t, r)"
    by (simp add: l)
  from digit_not_punctuation [OF c] c s show ?thesis
    by (simp add: next_token_def l)
qed

subsection \<open>Tokens\<close>

text \<open>
  For the proof: \<open>text_of\<close> is the text of a value where an array writes it,
  \<open>toks\<close> is the token sequence of that text, \<open>delimited\<close> says that a text is
  empty or starts with one of the characters that follow a value in such a text.
\<close>

definition text_of :: "'n numfmt \<Rightarrow> 'n jsval \<Rightarrow> jsstring" where
  "text_of N v = (case json_stringify N v of Inr (Some s) \<Rightarrow> s | _ \<Rightarrow> js ''null'')"

fun toks :: "'n numfmt \<Rightarrow> 'n jsval \<Rightarrow> token list"
  and toks_elements :: "'n numfmt \<Rightarrow> 'n jsval list \<Rightarrow> token list"
  and toks_more :: "'n numfmt \<Rightarrow> 'n jsval list \<Rightarrow> token list"
  and toks_members :: "'n numfmt \<Rightarrow> (jsstring \<times> 'n jsval) list \<Rightarrow> token list"
  and toks_more_members :: "'n numfmt \<Rightarrow> (jsstring \<times> 'n jsval) list \<Rightarrow> token list"
where
  "toks N JUndefined = [TNull]"
| "toks N JNull = [TNull]"
| "toks N (JBool b) = [if b then TTrue else TFalse]"
| "toks N (JNum n) = [case num_show N n of None \<Rightarrow> TNull | Some l \<Rightarrow> TNumber l]"
| "toks N (JBigInt i) = [TNull]"
| "toks N (JStr s) = [TString s]"
| "toks N (JArr xs) = TLBracket # toks_elements N xs @ [TRBracket]"
| "toks N (JObj kvs) = TLBrace # toks_members N kvs @ [TRBrace]"
| "toks_elements N [] = []"
| "toks_elements N (x # xs) = toks N x @ toks_more N xs"
| "toks_more N [] = []"
| "toks_more N (x # xs) = TComma # toks N x @ toks_more N xs"
| "toks_members N [] = []"
| "toks_members N ((k, v) # kvs) = TString k # TColon # toks N v @ toks_more_members N kvs"
| "toks_more_members N [] = []"
| "toks_more_members N ((k, v) # kvs) =
     TComma # TString k # TColon # toks N v @ toks_more_members N kvs"

definition prepend :: "token list \<Rightarrow> token list option \<Rightarrow> token list option" where
  "prepend ts x = map_option (\<lambda>r. ts @ r) x"

lemma prepend_simps [simp]:
  "prepend [] x = x"
  "prepend a (prepend b x) = prepend (a @ b) x"
  "prepend ts (Some r) = Some (ts @ r)"
  by (cases x; simp add: prepend_def)+

lemma map_option_Cons_prepend: "map_option ((#) t) x = prepend [t] x"
  by (cases x) (simp_all add: prepend_def)

definition lexes :: "'n numfmt \<Rightarrow> 'n jsval \<Rightarrow> bool" where
  "lexes N v =
     (\<forall>r. delimited r \<longrightarrow> lex (text_of N v @ r) = prepend (toks N v) (lex r))"

lemma json_values_all: "json_values N xs = (\<forall>x\<in>set xs. json_value N x)"
  by (induction xs) auto

lemma json_members_all: "json_members N kvs = (\<forall>kv\<in>set kvs. json_value N (snd kv))"
  by (induction kvs) auto

lemma json_value_stringifies:
  "json_value N v \<Longrightarrow> \<exists>s. json_stringify N v = Inr (Some s)"
  "json_values N xs \<Longrightarrow> \<exists>ss. stringify_elements N xs = Inr ss"
  "json_members N kvs \<Longrightarrow> \<exists>ss. stringify_members N kvs = Inr ss"
  by (induction N v and N xs and N kvs
      rule: json_stringify_stringify_elements_stringify_members.induct)
    (auto split: option.splits)

lemma json_value_text:
  assumes "json_value N v"
  shows "json_stringify N v = Inr (Some (text_of N v))"
proof -
  from json_value_stringifies(1) [OF assms] obtain s where "json_stringify N v = Inr (Some s)"
    by blast
  then show ?thesis by (simp add: text_of_def)
qed

lemma stringify_elements_map:
  "json_values N xs \<Longrightarrow> stringify_elements N xs = Inr (map (text_of N) xs)"
  by (induction xs) (simp_all add: json_value_text)

lemma stringify_members_map:
  "json_members N kvs \<Longrightarrow>
   stringify_members N kvs = Inr (map (\<lambda>(k, v). quote k @ c_colon # text_of N v) kvs)"
  by (induction kvs) (auto simp: json_value_text)

lemma join_comma_Cons: "join_comma (s # ss) = s @ concat (map ((#) c_comma) ss)"
  by (induction ss arbitrary: s) auto

text \<open>The text of each single token is read back as that token.\<close>

lemma lex_punctuation:
  "lex (c_lbrace # r) = prepend [TLBrace] (lex r)"
  "lex (c_rbrace # r) = prepend [TRBrace] (lex r)"
  "lex (c_lbracket # r) = prepend [TLBracket] (lex r)"
  "lex (c_rbracket # r) = prepend [TRBracket] (lex r)"
  "lex (c_colon # r) = prepend [TColon] (lex r)"
  "lex (c_comma # r) = prepend [TComma] (lex r)"
  by (simp_all add: is_ws_def next_token_def map_option_Cons_prepend)

lemma lex_names:
  "lex (js ''null'' @ r) = prepend [TNull] (lex r)"
  "lex (js ''true'' @ r) = prepend [TTrue] (lex r)"
  "lex (js ''false'' @ r) = prepend [TFalse] (lex r)"
  by (simp_all add: js_def is_ws_def next_token_def is_digit_def match_literal_def
      map_option_Cons_prepend)

lemma lex_quote: "lex (quote s @ r) = prepend [TString s] (lex r)"
proof -
  have "next_token (c_quote # quote_chars s @ c_quote # r) = Some (TString s, r)"
    using next_token_quote [of s r] by (simp add: quote_def)
  then show ?thesis by (simp add: quote_def is_ws_def map_option_Cons_prepend)
qed

lemma lex_number:
  assumes "scan_number l = Some (l, [])" and "delimited r"
  shows "lex (l @ r) = prepend [TNumber l] (lex r)"
proof -
  from number_literal_head [OF assms(1)] obtain c t where l: "l = c # t"
    and c: "c = 0x2D \<or> is_digit c" by blast
  from digit_not_punctuation [OF c] have "\<not> is_ws c" by simp
  with next_token_number [OF assms] l show ?thesis by (simp add: map_option_Cons_prepend)
qed

subsection \<open>The text of a value is cut into its tokens\<close>

lemma delimited_more:
  "delimited r \<Longrightarrow> delimited (concat (map (\<lambda>y. c_comma # f y) ys) @ r)"
  by (cases ys) auto

lemma lex_more:
  assumes el: "\<forall>x\<in>set xs. lexes N x" and d: "delimited r"
  shows "lex (concat (map (\<lambda>y. c_comma # text_of N y) xs) @ r)
           = prepend (toks_more N xs) (lex r)"
  using el
proof (induction xs)
  case Nil
  show ?case by simp
next
  case (Cons y ys)
  let ?R = "concat (map (\<lambda>y. c_comma # text_of N y) ys) @ r"
  have dR: "delimited ?R" using d by (rule delimited_more)
  from Cons.prems have "lexes N y" by simp
  with dR have y: "lex (text_of N y @ ?R) = prepend (toks N y) (lex ?R)"
    by (simp add: lexes_def)
  from Cons.prems have "\<forall>x\<in>set ys. lexes N x" by simp
  from Cons.IH [OF this] have ih: "lex ?R = prepend (toks_more N ys) (lex r)" .
  show ?case
    by (simp add: lex_punctuation y ih del: lex.simps)
qed

lemma lex_elements:
  assumes el: "\<forall>x\<in>set xs. lexes N x" and d: "delimited r"
  shows "lex (join_comma (map (text_of N) xs) @ r) = prepend (toks_elements N xs) (lex r)"
proof (cases xs)
  case Nil
  then show ?thesis by simp
next
  case (Cons x ys)
  let ?R = "concat (map (\<lambda>y. c_comma # text_of N y) ys) @ r"
  have dR: "delimited ?R" using d by (rule delimited_more)
  from el Cons have "lexes N x" by simp
  with dR have x: "lex (text_of N x @ ?R) = prepend (toks N x) (lex ?R)"
    by (simp add: lexes_def)
  from el Cons have "\<forall>x\<in>set ys. lexes N x" by simp
  from lex_more [OF this d] have m: "lex ?R = prepend (toks_more N ys) (lex r)" .
  have "join_comma (map (text_of N) xs) @ r = text_of N x @ ?R"
    by (simp add: Cons join_comma_Cons map_map o_def)
  then show ?thesis
    by (simp add: x m Cons)
qed

lemma delimited_more_members:
  "delimited r \<Longrightarrow> delimited (concat (map (\<lambda>kv. c_comma # f kv) kvs) @ r)"
  by (cases kvs) auto

lemma lex_member:
  assumes "lexes N v" and "delimited R"
  shows "lex (quote k @ c_colon # text_of N v @ R)
           = prepend (TString k # TColon # toks N v) (lex R)"
proof -
  from assms have "lex (text_of N v @ R) = prepend (toks N v) (lex R)"
    by (simp add: lexes_def)
  then show ?thesis
    by (simp add: lex_quote lex_punctuation del: lex.simps)
qed

lemma lex_more_members:
  assumes el: "\<forall>kv\<in>set kvs. lexes N (snd kv)" and d: "delimited r"
  shows "lex (concat (map (\<lambda>kv. c_comma # quote (fst kv) @ c_colon # text_of N (snd kv)) kvs) @ r)
           = prepend (toks_more_members N kvs) (lex r)"
  using el
proof (induction kvs)
  case Nil
  show ?case by simp
next
  case (Cons kv kvs)
  obtain k v where kv: "kv = (k, v)" by (cases kv) auto
  let ?R = "concat (map (\<lambda>kv. c_comma # quote (fst kv) @ c_colon # text_of N (snd kv)) kvs) @ r"
  have dR: "delimited ?R" using d by (rule delimited_more_members)
  from Cons.prems kv have "lexes N v" by simp
  from lex_member [OF this dR]
  have m: "lex (quote k @ c_colon # text_of N v @ ?R)
      = prepend (TString k # TColon # toks N v) (lex ?R)" .
  from Cons.prems have "\<forall>kv\<in>set kvs. lexes N (snd kv)" by simp
  from Cons.IH [OF this] have ih: "lex ?R = prepend (toks_more_members N kvs) (lex r)" .
  show ?case
    by (simp add: kv lex_punctuation m ih del: lex.simps)
qed

lemma lex_members:
  assumes el: "\<forall>kv\<in>set kvs. lexes N (snd kv)" and d: "delimited r"
  shows "lex (join_comma (map (\<lambda>(k, v). quote k @ c_colon # text_of N v) kvs) @ r)
           = prepend (toks_members N kvs) (lex r)"
proof (cases kvs)
  case Nil
  then show ?thesis by simp
next
  case (Cons kv ys)
  obtain k v where kv: "kv = (k, v)" by (cases kv) auto
  let ?R = "concat (map (\<lambda>kv. c_comma # quote (fst kv) @ c_colon # text_of N (snd kv)) ys) @ r"
  have dR: "delimited ?R" using d by (rule delimited_more_members)
  from el Cons kv have "lexes N v" by simp
  from lex_member [OF this dR]
  have m: "lex (quote k @ c_colon # text_of N v @ ?R)
      = prepend (TString k # TColon # toks N v) (lex ?R)" .
  from el Cons have "\<forall>kv\<in>set ys. lexes N (snd kv)" by simp
  from lex_more_members [OF this d]
  have mm: "lex ?R = prepend (toks_more_members N ys) (lex r)" .
  have "join_comma (map (\<lambda>(k, v). quote k @ c_colon # text_of N v) kvs) @ r
      = quote k @ c_colon # text_of N v @ ?R"
    by (simp add: Cons kv join_comma_Cons map_map o_def case_prod_beta)
  then show ?thesis
    by (simp add: m mm Cons kv)
qed

lemma json_value_lexes: "json_value N v \<Longrightarrow> lexes N v"
proof (induction v)
  case JUndefined
  then show ?case by simp
next
  case JNull
  show ?case by (simp add: lexes_def text_of_def lex_names)
next
  case (JBool b)
  show ?case by (simp add: lexes_def text_of_def lex_names)
next
  case (JNum n)
  then obtain l where l: "num_show N n = Some l" and s: "scan_number l = Some (l, [])"
    by (auto split: option.splits)
  show ?case
    by (simp add: lexes_def text_of_def l lex_number [OF s])
next
  case (JBigInt i)
  then show ?case by simp
next
  case (JStr s)
  show ?case by (simp add: lexes_def text_of_def lex_quote)
next
  case (JArr xs)
  from JArr.prems have vs: "json_values N xs" by simp
  then have "\<forall>x\<in>set xs. json_value N x" by (simp add: json_values_all)
  with JArr.IH have el: "\<forall>x\<in>set xs. lexes N x" by blast
  have t: "text_of N (JArr xs) = c_lbracket # join_comma (map (text_of N) xs) @ [c_rbracket]"
    by (simp add: text_of_def stringify_elements_map [OF vs])
  show ?case
    unfolding lexes_def
  proof (intro allI impI)
    fix r assume d: "delimited r"
    have "delimited (c_rbracket # r)" by simp
    from lex_elements [OF el this]
    show "lex (text_of N (JArr xs) @ r) = prepend (toks N (JArr xs)) (lex r)"
      by (simp add: t lex_punctuation del: lex.simps)
  qed
next
  case (JObj kvs)
  from JObj.prems have m: "json_members N kvs" by simp
  then have jv: "\<forall>kv\<in>set kvs. json_value N (snd kv)" by (simp add: json_members_all)
  have el: "\<forall>kv\<in>set kvs. lexes N (snd kv)"
  proof
    fix kv assume kv: "kv \<in> set kvs"
    have "snd kv \<in> Basic_BNFs.snds kv" by (rule snds.intros)
    from JObj.IH [OF kv this] jv kv show "lexes N (snd kv)" by blast
  qed
  have t: "text_of N (JObj kvs) =
      c_lbrace # join_comma (map (\<lambda>(k, v). quote k @ c_colon # text_of N v) kvs) @ [c_rbrace]"
    by (simp add: text_of_def stringify_members_map [OF m])
  show ?case
    unfolding lexes_def
  proof (intro allI impI)
    fix r assume d: "delimited r"
    have "delimited (c_rbrace # r)" by simp
    from lex_members [OF el this]
    show "lex (text_of N (JObj kvs) @ r) = prepend (toks N (JObj kvs)) (lex r)"
      by (simp add: t lex_punctuation del: lex.simps)
  qed
qed

lemma lex_text_of: "json_value N v \<Longrightarrow> lex (text_of N v) = Some (toks N v)"
  using json_value_lexes [of N v] by (auto simp: lexes_def dest: spec [of _ "[]"])

subsection \<open>The automaton builds the value from its tokens\<close>

definition builds :: "'n numfmt \<Rightarrow> 'n jsval \<Rightarrow> bool" where
  "builds N v = (\<forall>fs ts. run N (PValue fs) (toks N v @ ts) = run N (deliver v fs) ts)"

lemma toks_head: "\<exists>t ts. toks N v = t # ts \<and> t \<noteq> TRBracket"
  by (cases v) (auto split: option.splits)

lemma run_array_start:
  "run N (PArrStart fs) (toks N v @ ts) = run N (PValue (FArr [] # fs)) (toks N v @ ts)"
proof -
  from toks_head [of N v] obtain t r where "toks N v = t # r" "t \<noteq> TRBracket" by blast
  then show ?thesis by simp
qed

lemma set_property_new: "k \<notin> fst ` set ms \<Longrightarrow> set_property k v ms = ms @ [(k, v)]"
  by (induction ms) auto

lemma run_more:
  assumes "\<forall>x\<in>set xs. builds N x"
  shows "run N (PArrNext es fs) (toks_more N xs @ TRBracket # ts)
           = run N (deliver (JArr (es @ xs)) fs) ts"
  using assms
proof (induction xs arbitrary: es)
  case Nil
  show ?case by simp
next
  case (Cons y ys)
  from Cons.prems have "builds N y" by simp
  then have y: "run N (PValue (FArr es # fs)) (toks N y @ toks_more N ys @ TRBracket # ts)
      = run N (PArrNext (es @ [y]) fs) (toks_more N ys @ TRBracket # ts)"
    by (simp add: builds_def)
  from Cons.prems have "\<forall>x\<in>set ys. builds N x" by simp
  from Cons.IH [OF this, of "es @ [y]"] y show ?case by simp
qed

lemma run_elements:
  assumes "\<forall>x\<in>set xs. builds N x"
  shows "run N (PArrStart fs) (toks_elements N xs @ TRBracket # ts)
           = run N (deliver (JArr xs) fs) ts"
proof (cases xs)
  case Nil
  then show ?thesis by simp
next
  case (Cons x ys)
  from assms Cons have "builds N x" by simp
  then have x: "run N (PValue (FArr [] # fs)) (toks N x @ toks_more N ys @ TRBracket # ts)
      = run N (PArrNext [x] fs) (toks_more N ys @ TRBracket # ts)"
    by (simp add: builds_def)
  from assms Cons have "\<forall>x\<in>set ys. builds N x" by simp
  from run_more [OF this, of "[x]" fs ts] x
    run_array_start [of N fs x "toks_more N ys @ TRBracket # ts"]
  show ?thesis by (simp add: Cons)
qed

lemma run_more_members:
  assumes "\<forall>kv\<in>set kvs. builds N (snd kv)" and "distinct (map fst (ms @ kvs))"
  shows "run N (PObjNext ms fs) (toks_more_members N kvs @ TRBrace # ts)
           = run N (deliver (JObj (ms @ kvs)) fs) ts"
  using assms
proof (induction kvs arbitrary: ms)
  case Nil
  show ?case by simp
next
  case (Cons kv kvs)
  obtain k v where kv: "kv = (k, v)" by (cases kv) auto
  from Cons.prems kv have "builds N v" by simp
  then have v: "run N (PValue (FObj ms k # fs)) (toks N v @ toks_more_members N kvs @ TRBrace # ts)
      = run N (PObjNext (set_property k v ms) fs) (toks_more_members N kvs @ TRBrace # ts)"
    by (simp add: builds_def)
  from Cons.prems(2) kv have "k \<notin> fst ` set ms" by auto
  then have sp: "set_property k v ms = ms @ [(k, v)]" by (rule set_property_new)
  from Cons.prems have a: "\<forall>kv\<in>set kvs. builds N (snd kv)" by simp
  from Cons.prems(2) kv have b: "distinct (map fst ((ms @ [(k, v)]) @ kvs))" by simp
  from Cons.IH [OF a b] v sp show ?case by (simp add: kv)
qed

lemma run_members:
  assumes "\<forall>kv\<in>set kvs. builds N (snd kv)" and "distinct (map fst kvs)"
  shows "run N (PObjStart fs) (toks_members N kvs @ TRBrace # ts)
           = run N (deliver (JObj kvs) fs) ts"
proof (cases kvs)
  case Nil
  then show ?thesis by simp
next
  case (Cons kv ys)
  obtain k v where kv: "kv = (k, v)" by (cases kv) auto
  from assms Cons kv have "builds N v" by simp
  then have v: "run N (PValue (FObj [] k # fs)) (toks N v @ toks_more_members N ys @ TRBrace # ts)
      = run N (PObjNext [(k, v)] fs) (toks_more_members N ys @ TRBrace # ts)"
    by (simp add: builds_def)
  from assms Cons have a: "\<forall>kv\<in>set ys. builds N (snd kv)" by simp
  from assms(2) Cons kv have b: "distinct (map fst ([(k, v)] @ ys))" by simp
  from run_more_members [OF a b, of fs ts] v show ?thesis by (simp add: Cons kv)
qed

lemma json_value_builds: "json_value N v \<Longrightarrow> builds N v"
proof (induction v)
  case JUndefined
  then show ?case by simp
next
  case JNull
  show ?case by (simp add: builds_def)
next
  case (JBool b)
  show ?case by (simp add: builds_def)
next
  case (JNum n)
  then obtain l where "num_show N n = Some l" "num_read N l = n"
    by (auto split: option.splits)
  then show ?case by (simp add: builds_def)
next
  case (JBigInt i)
  then show ?case by simp
next
  case (JStr s)
  show ?case by (simp add: builds_def)
next
  case (JArr xs)
  from JArr.prems have "\<forall>x\<in>set xs. json_value N x" by (simp add: json_values_all)
  with JArr.IH have el: "\<forall>x\<in>set xs. builds N x" by blast
  show ?case
    unfolding builds_def
  proof (intro allI)
    fix fs ts
    from run_elements [OF el, of fs ts]
    show "run N (PValue fs) (toks N (JArr xs) @ ts) = run N (deliver (JArr xs) fs) ts"
      by simp
  qed
next
  case (JObj kvs)
  from JObj.prems have d: "distinct (map fst kvs)" and m: "json_members N kvs" by simp_all
  then have jv: "\<forall>kv\<in>set kvs. json_value N (snd kv)" by (simp add: json_members_all)
  have el: "\<forall>kv\<in>set kvs. builds N (snd kv)"
  proof
    fix kv assume kv: "kv \<in> set kvs"
    have "snd kv \<in> Basic_BNFs.snds kv" by (rule snds.intros)
    from JObj.IH [OF kv this] jv kv show "builds N (snd kv)" by blast
  qed
  show ?case
    unfolding builds_def
  proof (intro allI)
    fix fs ts
    from run_members [OF el d, of fs ts]
    show "run N (PValue fs) (toks N (JObj kvs) @ ts) = run N (deliver (JObj kvs) fs) ts"
      by simp
  qed
qed

lemma json_parse_stringify:
  assumes "json_value N v"
  shows "json_stringify N v = Inr (Some (text_of N v)) \<and> json_parse N (text_of N v) = Inr v"
proof -
  from json_value_builds [OF assms]
  have "run N (PValue []) (toks N v @ []) = run N (deliver v []) []"
    unfolding builds_def by blast
  then have "run N (PValue []) (toks N v) = Some (PDone v)" by simp
  with lex_text_of [OF assms] json_value_text [OF assms] show ?thesis
    by (simp add: json_parse_def)
qed

section \<open>Writing a value and reading it back\<close>

lemma store_get_put: "store_get (key r) (store_put r rs) = Some r"
  by (induction rs) (auto simp: store_get_def)

lemma setItem_then_getItem:
  assumes s: "fst (setItem N k v w) = Resolved True"
    and g: "fst (getItem N k (snd (setItem N k v w))) = Resolved r"
  shows "\<exists>x. serialize N v = Inr x \<and> r = decode N x"
proof -
  obtain r0 w1 where e: "ensureDB w = (r0, w1)" by (cases "ensureDB w") auto
  from s obtain x where x: "serialize N v = Inr x"
    by (cases "serialize N v") (simp_all add: setItem_cases [OF e] split: option.splits)
  let ?item = "\<lparr>key = k, val = x, timestamp = clock w (clock_reads w)\<rparr>"
  from s x have "store (snd (setItem N k v w)) = store_put ?item (store w)"
    by (simp add: setItem_cases [OF e] split: option.splits)
  moreover have "store_get k (store_put ?item (store w)) = Some ?item"
    using store_get_put [of ?item "store w"] by simp
  ultimately have "store_get k (store (snd (setItem N k v w))) = Some ?item" by simp
  with g have "r = decode N x"
    by (simp add: getItem_cases split: option.splits)
  with x show ?thesis by simp
qed

lemma healthy_setItem_getItem:
  assumes d: "db w" and f: "\<forall>n. fault w n = None" and x: "serialize N v = Inr x"
  shows "fst (setItem N k v w) = Resolved True
    \<and> fst (getItem N k (snd (setItem N k v w))) = Resolved (decode N x)"
proof -
  from d have e: "ensureDB w = (None, w)" by (rule ensureDB_connected)
  let ?item = "\<lparr>key = k, val = x, timestamp = clock w (clock_reads w)\<rparr>"
  let ?w' = "w\<lparr>clock_reads := Suc (clock_reads w), requests := Suc (requests w),
                  store := store_put ?item (store w)\<rparr>"
  from f x have s: "setItem N k v w = (Resolved True, ?w')"
    by (simp add: setItem_cases [OF e])
  have e': "ensureDB ?w' = (None, ?w')" using d by (simp add: ensureDB_def)
  have "store_get k (store ?w') = Some ?item"
    using store_get_put [of ?item "store w"] by simp
  with f e' have "fst (getItem N k ?w') = Resolved (decode N (val ?item))"
    by (simp add: getItem_cases)
  with s show ?thesis by simp
qed

lemma serialize_json_value:
  assumes "json_value N v"
  shows "\<exists>x. serialize N v = Inr x"
proof (cases "\<exists>s. v = JStr s")
  case True
  then show ?thesis by (auto simp: serialize_def)
next
  case False
  then have "serialize N v = json_stringify N v"
    by (cases v) (simp_all add: serialize_def)
  with json_value_text [OF assms] show ?thesis by simp
qed

text \<open>
  Claim C1, as the code has it. When \<open>setItem(k, v)\<close> and the \<open>getItem(k)\<close> after
  it both resolve, \<open>getItem\<close> returns \<open>v\<close> if \<open>v\<close> is not a string and is a value
  that JSON represents (\<open>json_value\<close>); it returns \<open>v\<close> if \<open>v\<close> is a string that
  \<open>JSON.parse\<close> rejects; and it returns \<open>undefined\<close> for \<open>undefined\<close>. Equality of
  values is equality of the model's terms, which is finer than deep equality (it
  compares the order of an object's properties too).
\<close>

theorem setItem_getItem_roundtrip:
  assumes "fst (setItem N k v w) = Resolved True"
    and "fst (getItem N k (snd (setItem N k v w))) = Resolved r"
  shows "(json_value N v \<and> (\<forall>s. v \<noteq> JStr s) \<longrightarrow> r = v)
    \<and> (\<forall>s. v = JStr s \<and> json_parse N s = Inl SyntaxError \<longrightarrow> r = v)
    \<and> (v = JUndefined \<longrightarrow> r = v)"
proof -
  from setItem_then_getItem [OF assms] obtain x
    where x: "serialize N v = Inr x" and r: "r = decode N x" by blast
  have a: "json_value N v \<and> (\<forall>s. v \<noteq> JStr s) \<longrightarrow> r = v"
  proof
    assume h: "json_value N v \<and> (\<forall>s. v \<noteq> JStr s)"
    then have "serialize N v = json_stringify N v"
      by (cases v) (simp_all add: serialize_def)
    with json_parse_stringify [of N v] h x r show "r = v"
      by (auto simp: decode_cases)
  qed
  have b: "\<forall>s. v = JStr s \<and> json_parse N s = Inl SyntaxError \<longrightarrow> r = v"
    using x r by (auto simp: serialize_def decode_cases)
  have c: "v = JUndefined \<longrightarrow> r = v"
    using x r by (auto simp: serialize_def decode_cases)
  from a b c show ?thesis by (intro conjI)
qed

text \<open>
  The claim as stated, for any value that is not a string, fails: an array that
  holds \<open>undefined\<close> comes back holding \<open>null\<close>.
\<close>

theorem roundtrip_undefined_counterexample:
  "fst (setItem integers (js ''k'') (JArr [JUndefined]) (connected [] [])) = Resolved True
   \<and> fst (getItem integers (js ''k'')
        (snd (setItem integers (js ''k'') (JArr [JUndefined]) (connected [] []))))
       = Resolved (JArr [JNull])
   \<and> JArr [JNull] \<noteq> (JArr [JUndefined] :: int jsval)"
proof -
  let ?w = "connected [] []"
  have h: "db ?w" "\<forall>n. fault ?w n = None" by (simp_all add: connected_def fresh_def)
  have x: "serialize integers (JArr [JUndefined]) = Inr (Some (js ''[null]''))" by code_simp
  have d: "decode integers (Some (js ''[null]'')) = JArr [JNull]" by code_simp
  from healthy_setItem_getItem [OF h x, of "js ''k''"] d
  show ?thesis by simp
qed

theorem setItem_getItem_roundtrip_witness:
  "fst (setItem integers (js ''cfg'') settings (connected [] [])) = Resolved True
   \<and> fst (getItem integers (js ''cfg'') (snd (setItem integers (js ''cfg'') settings (connected [] []))))
       = Resolved settings
   \<and> json_value integers settings \<and> (\<forall>s. settings \<noteq> JStr s)
   \<and> fst (setItem integers (js ''lang'') (JStr (js ''en'')) (connected [] [])) = Resolved True
   \<and> json_parse integers (js ''en'') = Inl SyntaxError
   \<and> fst (getItem integers (js ''lang'')
        (snd (setItem integers (js ''lang'') (JStr (js ''en'')) (connected [] []))))
       = Resolved (JStr (js ''en''))"
proof -
  let ?w = "connected [] []"
  let ?g1 = "fst (getItem integers (js ''cfg'') (snd (setItem integers (js ''cfg'') settings ?w)))"
  let ?g2 = "fst (getItem integers (js ''lang'')
        (snd (setItem integers (js ''lang'') (JStr (js ''en'')) ?w)))"
  have h: "db ?w" "\<forall>n. fault ?w n = None" by (simp_all add: connected_def fresh_def)
  have j: "json_value integers settings" by code_simp
  from serialize_json_value [OF j] obtain x1 where x1: "serialize integers settings = Inr x1"
    by blast
  from healthy_setItem_getItem [OF h x1, of "js ''cfg''"]
  obtain r1 where s1: "fst (setItem integers (js ''cfg'') settings ?w) = Resolved True"
    and g1: "?g1 = Resolved r1" by blast
  have n: "\<forall>s. settings \<noteq> JStr s" by (simp add: settings_def)
  from setItem_getItem_roundtrip [OF s1 g1] j n have r1: "r1 = settings" by blast
  have x2: "serialize integers (JStr (js ''en'')) = Inr (Some (js ''en''))"
    by (simp add: serialize_def)
  from healthy_setItem_getItem [OF h x2, of "js ''lang''"]
  obtain r2 where s2: "fst (setItem integers (js ''lang'') (JStr (js ''en'')) ?w) = Resolved True"
    and g2: "?g2 = Resolved r2" by blast
  have p: "json_parse integers (js ''en'') = Inl SyntaxError" by code_simp
  from setItem_getItem_roundtrip [OF s2 g2] p have r2: "r2 = JStr (js ''en'')" by blast
  from s1 g1 r1 j n s2 p g2 r2 show ?thesis by (intro conjI) simp_all
qed

end
